theory Spec2Isabelle
  imports Main
begin

section \<open>mdx\_include: the include preprocessor of \<^verbatim>\<open>mdx_include.py\<close>\<close>

text \<open>
  The development embeds \<^verbatim>\<open>IncludePreprocessor\<close> (file \<^verbatim>\<open>src/mdx_include/mdx_include.py\<close>).
  A Python \<^verbatim>\<open>str\<close> is a \<^typ>\<open>string\<close> whose characters are the code points below 256.
  Object state (the two content caches, the cycle tracker) is passed explicitly, an
  exception is a value of type \<open>error\<close> returned together with the state reached when it
  was raised, and the recursion of \<^verbatim>\<open>mdx_include_get_processed_lines\<close> through included
  files is bounded by a fuel counter: running out of fuel is the result \<open>None\<close>.
\<close>

subsection \<open>Python string primitives\<close>

text \<open>\<^verbatim>\<open>str.isspace\<close> on the code points below 256 (what \<^verbatim>\<open>strip\<close> and \<^verbatim>\<open>lstrip\<close> remove).\<close>

definition is_space :: "char \<Rightarrow> bool" where
  "is_space c = (c \<in> set [CHR 0x09, CHR 0x0A, CHR 0x0B, CHR 0x0C, CHR 0x0D,
                           CHR 0x1C, CHR 0x1D, CHR 0x1E, CHR 0x1F, CHR 0x20, CHR 0x85, CHR 0xA0])"

text \<open>The line boundaries of \<^verbatim>\<open>str.splitlines\<close> below 256; \<^verbatim>\<open>\r\n\<close> is one boundary.\<close>

definition is_linebreak :: "char \<Rightarrow> bool" where
  "is_linebreak c = (c \<in> set [CHR 0x0A, CHR 0x0B, CHR 0x0C, CHR 0x0D,
                               CHR 0x1C, CHR 0x1D, CHR 0x1E, CHR 0x85])"

fun splitlines_from :: "string \<Rightarrow> string \<Rightarrow> string list" where
  "splitlines_from cur [] = (if cur = [] then [] else [rev cur])"
| "splitlines_from cur [c] =
     (if is_linebreak c then [rev cur] else [rev (c # cur)])"
| "splitlines_from cur (c # d # cs) =
     (if c = CHR 0x0D \<and> d = CHR 0x0A then rev cur # splitlines_from [] cs
      else if is_linebreak c then rev cur # splitlines_from [] (d # cs)
      else splitlines_from (c # cur) (d # cs))"

definition splitlines :: "string \<Rightarrow> string list" where
  "splitlines s = splitlines_from [] s"

text \<open>\<^verbatim>\<open>s[a:b]\<close> and \<^verbatim>\<open>s[a:]\<close> for offsets that are not negative.\<close>

definition py_slice :: "'a list \<Rightarrow> nat \<Rightarrow> nat \<Rightarrow> 'a list" where
  "py_slice xs a b = take (b - a) (drop a xs)"

text \<open>\<^verbatim>\<open>s.rstrip("/")\<close>.\<close>

definition rstrip_slash :: "string \<Rightarrow> string" where
  "rstrip_slash s = rev (dropWhile (\<lambda>c. c = CHR ''/'') (rev s))"

text \<open>\<^verbatim>\<open>s.replace("-", "_")\<close>.\<close>

definition replace_dash :: "string \<Rightarrow> string" where
  "replace_dash s = map (\<lambda>c. if c = CHR ''-'' then CHR ''_'' else c) s"

text \<open>Truth value of an optional regex group: \<^verbatim>\<open>None\<close> and \<^verbatim>\<open>""\<close> are false.\<close>

definition truthy :: "string option \<Rightarrow> bool" where
  "truthy v = (case v of None \<Rightarrow> False | Some s \<Rightarrow> s \<noteq> [])"

subsection \<open>Data\<close>

text \<open>
  One match of the compiled directive pattern on a line: \<^verbatim>\<open>m.group(0)\<close>, the named groups of
  \<^verbatim>\<open>m.groupdict()\<close> (a group that took no part in the match is \<open>None\<close>; the path group always
  takes part) and \<^verbatim>\<open>m.span()\<close>.
\<close>

record dmatch =
  group0 :: string
  g_escape :: "string option"
  g_recursive :: "string option"
  g_strip_indent :: "string option"
  g_apply_indent :: "string option"
  g_path :: string
  g_lines :: "string option"
  g_encoding :: "string option"
  span_s :: nat
  span_e :: nat

text \<open>
  The configuration values \<^verbatim>\<open>IncludePreprocessor.__init__\<close> copies from the extension
  (lines 189 to 208). \<^verbatim>\<open>setConfig\<close> accepts \<^verbatim>\<open>None\<close> wherever the default is a bool. The two
  recursion defaults are tested with \<^verbatim>\<open>is None\<close> and are kept three-valued; every other
  flag is only ever used through its truth value, where \<^verbatim>\<open>None\<close> acts as \<^verbatim>\<open>False\<close>, and is a
  \<^typ>\<open>bool\<close> here.
\<close>

record config =
  base_path :: string
  encoding :: string
  allow_local :: bool
  allow_remote :: bool
  truncate_on_failure :: bool
  recursive_local :: "bool option"
  recursive_remote :: "bool option"
  syntax_recurs_on :: string
  syntax_recurs_off :: string
  content_cache_local :: bool
  content_cache_remote :: bool
  content_cache_clean_local :: bool
  content_cache_clean_remote :: bool
  allow_circular_inclusion :: bool
  recursive_relative_path :: bool

text \<open>The defaults of \<^verbatim>\<open>IncludeExtension.__init__\<close> (lines 91 to 125).\<close>

definition default_config :: config where
  "default_config =
     \<lparr> base_path = ''.'', encoding = ''utf-8'', allow_local = True, allow_remote = True,
       truncate_on_failure = True, recursive_local = Some True, recursive_remote = Some False,
       syntax_recurs_on = ''+'', syntax_recurs_off = ''-'',
       content_cache_local = True, content_cache_remote = True,
       content_cache_clean_local = False, content_cache_clean_remote = False,
       allow_circular_inclusion = False, recursive_relative_path = False \<rparr>"

text \<open>
  Exceptions that leave \<^verbatim>\<open>run\<close>: the \<^verbatim>\<open>RuntimeError\<close> of line 239 with the three values its
  message is built from (parent, file, \<^verbatim>\<open>cyclic.root[file]\<close>), the \<^verbatim>\<open>KeyError\<close> of that lookup,
  the \<^verbatim>\<open>ValueError\<close> of \<^verbatim>\<open>min\<close> on an empty sequence (line 376), and an exception raised by
  the line slicer.
\<close>

datatype error =
  CircularInclusion string string "string list"
| KeyError string
| MinEmptySequence
| SliceError string

text \<open>
  A call of one of the two module-level retrieval functions, recorded in the order the
  calls are made: kind, file name or URL, encoding, and the status returned.
\<close>

datatype kind = Local | Remote

datatype io_event = Retrieval kind string string bool

text \<open>
  The mutable state of the preprocessor: both content caches, \<^verbatim>\<open>self.cyclic\<close>, and the
  retrieval calls made so far.
\<close>

record 'c state =
  mdx_include_content_cache_local :: "string \<rightharpoonup> string list"
  mdx_include_content_cache_remote :: "string \<rightharpoonup> string list"
  cyclic :: 'c
  io_trace :: "io_event list"

text \<open>
  What the module calls outside itself. The compiled pattern, the file system and the
  network, the installed codecs, \<^verbatim>\<open>os.path\<close>, \<^verbatim>\<open>urllib\<close>, and the packages \<^verbatim>\<open>rcslice\<close> and
  \<^verbatim>\<open>cyclic\<close> are parameters of the model:
  \<^item> \<open>re_finditer line\<close>: the matches of \<^verbatim>\<open>compiled_re.finditer(line)\<close>, left to right;
  \<^item> \<open>encodings_modules\<close>: the module names \<^verbatim>\<open>pkgutil.iter_modules\<close> lists under \<^verbatim>\<open>encodings\<close>;
  \<^item> \<open>open_read f enc\<close>: the text \<^verbatim>\<open>open(f, "r", encoding=enc).read()\<close> returns, \<open>None\<close> when
    it raises; \<open>url_open_read\<close> likewise for the download and its decoding;
  \<^item> \<open>urlparse_netloc\<close> is \<^verbatim>\<open>urlparse(f).netloc\<close>, \<open>urlunparse\<close> is \<^verbatim>\<open>urlunparse(urlparse(f))\<close>;
  \<^item> \<open>RowSlice_slice\<close>: \<^verbatim>\<open>RowSlice(line_slice_separator).slice\<close>, \<open>None\<close> when it raises;
  \<^item> \<open>Cyclic_new\<close>, \<open>Cyclic_add\<close>, \<open>Cyclic_is_cyclic\<close>, \<open>Cyclic_root\<close>: a fresh \<^verbatim>\<open>Cyclic()\<close>,
    its methods \<^verbatim>\<open>add\<close> and \<^verbatim>\<open>is_cyclic\<close>, and the dictionary \<^verbatim>\<open>root\<close>.
  Each of them is a function of its arguments: the files and the network do not change
  during a run, the slicer returns its result and leaves the list it is given as it is,
  \<^verbatim>\<open>is_cyclic\<close> only reads the tracker, and none of them raises apart from the file, the
  download, the slicer and the lookup in \<^verbatim>\<open>root\<close>.
\<close>

record 'c env =
  re_finditer :: "string \<Rightarrow> dmatch list"
  encodings_modules :: "string list"
  open_read :: "string \<Rightarrow> string \<Rightarrow> string option"
  url_open_read :: "string \<Rightarrow> string \<Rightarrow> string option"
  expanduser :: "string \<Rightarrow> string"
  urlparse_netloc :: "string \<Rightarrow> string"
  urlunparse :: "string \<Rightarrow> string"
  isabs :: "string \<Rightarrow> bool"
  normpath :: "string \<Rightarrow> string"
  path_join :: "string \<Rightarrow> string \<Rightarrow> string"
  dirname :: "string \<Rightarrow> string"
  RowSlice_slice :: "string list \<Rightarrow> string \<Rightarrow> string list option"
  Cyclic_new :: 'c
  Cyclic_add :: "'c \<Rightarrow> string \<Rightarrow> string \<Rightarrow> 'c"
  Cyclic_is_cyclic :: "'c \<Rightarrow> string \<Rightarrow> bool"
  Cyclic_root :: "'c \<Rightarrow> string \<rightharpoonup> string list"

text \<open>
  A computation either runs out of fuel (\<open>None\<close>) or ends in a state, with an exception
  (\<open>Inl\<close>) or a value (\<open>Inr\<close>).
\<close>

type_synonym ('a, 'c) res = "((error + 'a) \<times> 'c state) option"

subsection \<open>Module-level functions\<close>

text \<open>\<^verbatim>\<open>encoding_exists\<close> (lines 50 to 60).\<close>

definition encoding_exists :: "'c env \<Rightarrow> string option \<Rightarrow> bool" where
  "encoding_exists env enc =
     (let found = filter (\<lambda>name. name \<noteq> ''aliases'') (encodings_modules env) in
      if truthy enc then
        (if the enc \<in> set found then True
         else if replace_dash (the enc) \<in> set found then True
         else False)
      else False)"

text \<open>
  Module-level \<^verbatim>\<open>get_remote_content_list\<close> (lines 63 to 71) and \<^verbatim>\<open>get_local_content_list\<close>
  (lines 74 to 84): the text with a newline appended, split into lines, or the empty list
  with status \<^verbatim>\<open>False\<close> on any exception.
\<close>

definition get_remote_content_list ::
  "'c env \<Rightarrow> string \<Rightarrow> string \<Rightarrow> 'c state \<Rightarrow> (string list \<times> bool) \<times> 'c state" where
  "get_remote_content_list env url enc st =
     (case url_open_read env url enc of
        Some body \<Rightarrow>
          ((splitlines (body @ [CHR 0x0A]), True),
           st\<lparr>io_trace := io_trace st @ [Retrieval Remote url enc True]\<rparr>)
      | None \<Rightarrow> (([], False), st\<lparr>io_trace := io_trace st @ [Retrieval Remote url enc False]\<rparr>))"

definition get_local_content_list ::
  "'c env \<Rightarrow> string \<Rightarrow> string \<Rightarrow> 'c state \<Rightarrow> (string list \<times> bool) \<times> 'c state" where
  "get_local_content_list env filename enc st =
     (case open_read env filename enc of
        Some body \<Rightarrow>
          ((splitlines (body @ [CHR 0x0A]), True),
           st\<lparr>io_trace := io_trace st @ [Retrieval Local filename enc True]\<rparr>)
      | None \<Rightarrow>
          (([], False), st\<lparr>io_trace := io_trace st @ [Retrieval Local filename enc False]\<rparr>))"

subsection \<open>The preprocessor's methods\<close>

text \<open>
  The methods \<^verbatim>\<open>get_remote_content_list\<close> (lines 242 to 253) and \<^verbatim>\<open>get_local_content_list\<close>
  (lines 255 to 264) of the preprocessor: the cache in front of the module-level function
  of the same name.
\<close>

definition self_get_remote_content_list ::
  "'c env \<Rightarrow> config \<Rightarrow> string \<Rightarrow> string \<Rightarrow> 'c state \<Rightarrow> (string list \<times> bool) \<times> 'c state" where
  "self_get_remote_content_list env cfg filename enc st =
     (if content_cache_remote cfg \<and> mdx_include_content_cache_remote st filename \<noteq> None then
        ((the (mdx_include_content_cache_remote st filename), True), st)
      else
        (case get_remote_content_list env filename enc st of
           ((textl, stat), st1) \<Rightarrow>
             if stat \<and> content_cache_remote cfg then
               ((textl, stat),
                st1\<lparr>mdx_include_content_cache_remote :=
                      (mdx_include_content_cache_remote st1)(filename \<mapsto> textl)\<rparr>)
             else ((textl, stat), st1)))"

definition self_get_local_content_list ::
  "'c env \<Rightarrow> config \<Rightarrow> string \<Rightarrow> string \<Rightarrow> 'c state \<Rightarrow> (string list \<times> bool) \<times> 'c state" where
  "self_get_local_content_list env cfg filename enc st =
     (if content_cache_local cfg \<and> mdx_include_content_cache_local st filename \<noteq> None then
        ((the (mdx_include_content_cache_local st filename), True), st)
      else
        (case get_local_content_list env filename enc st of
           ((textl, stat), st1) \<Rightarrow>
             if stat \<and> content_cache_local cfg then
               ((textl, stat),
                st1\<lparr>mdx_include_content_cache_local :=
                      (mdx_include_content_cache_local st1)(filename \<mapsto> textl)\<rparr>)
             else ((textl, stat), st1)))"

text \<open>
  In the definitions below \<open>rec\<close> stands for the recursive call
  \<^verbatim>\<open>self.mdx_include_get_processed_lines(textl, filename)\<close>; the knot is tied by
  \<open>mdx_include_get_processed_lines\<close> further down.

  \<^verbatim>\<open>mdx_include_get_cyclic_safe_processed_line_list\<close> (lines 228 to 240). The warning of line
  237 is logged and changes nothing.
\<close>

definition mdx_include_get_cyclic_safe_processed_line_list ::
  "(string list \<Rightarrow> string \<Rightarrow> 'c state \<Rightarrow> (string list, 'c) res) \<Rightarrow> 'c env \<Rightarrow> config \<Rightarrow>
   string list \<Rightarrow> string \<Rightarrow> string \<Rightarrow> 'c state \<Rightarrow> (string list, 'c) res" where
  "mdx_include_get_cyclic_safe_processed_line_list rec env cfg textl filename parent st =
     (if \<not> Cyclic_is_cyclic env (cyclic st) filename then rec textl filename st
      else if allow_circular_inclusion cfg then Some (Inr textl, st)
      else
        (case Cyclic_root env (cyclic st) filename of
           None \<Rightarrow> Some (Inl (KeyError filename), st)
         | Some parents \<Rightarrow> Some (Inl (CircularInclusion parent filename parents), st)))"

text \<open>\<^verbatim>\<open>get_recursive_content_list\<close> (lines 266 to 275).\<close>

definition get_recursive_content_list ::
  "(string list \<Rightarrow> string \<Rightarrow> 'c state \<Rightarrow> (string list, 'c) res) \<Rightarrow> 'c env \<Rightarrow> config \<Rightarrow>
   string list \<Rightarrow> string \<Rightarrow> string \<Rightarrow> bool option \<Rightarrow> string option \<Rightarrow> 'c state \<Rightarrow>
   (string list, 'c) res" where
  "get_recursive_content_list rec env cfg textl filename parent recursive recurse_state st =
     (if recursive = Some True then
        (if recurse_state \<noteq> Some (syntax_recurs_off cfg) then
           mdx_include_get_cyclic_safe_processed_line_list rec env cfg textl filename parent st
         else Some (Inr textl, st))
      else if recursive = None then
        (if recurse_state = Some (syntax_recurs_on cfg) then
           mdx_include_get_cyclic_safe_processed_line_list rec env cfg textl filename parent st
         else Some (Inr textl, st))
      else Some (Inr textl, st))"

text \<open>
  Lines 321 to 328 and 349 to 356, the same text in the remote and in the local branch:
  slice when a line range was given, then recurse. The status \<open>stat\<close> of the retrieval is
  carried along unchanged.
\<close>

definition slice_and_recurse ::
  "(string list \<Rightarrow> string \<Rightarrow> 'c state \<Rightarrow> (string list, 'c) res) \<Rightarrow> 'c env \<Rightarrow> config \<Rightarrow>
   dmatch \<Rightarrow> string list \<Rightarrow> bool \<Rightarrow> string \<Rightarrow> string \<Rightarrow> bool option \<Rightarrow> 'c state \<Rightarrow>
   (string list \<times> bool, 'c) res" where
  "slice_and_recurse rec env cfg m textl stat filename parent recursive st =
     (case (if truthy (g_lines m) then RowSlice_slice env textl (the (g_lines m))
            else Some textl) of
        None \<Rightarrow> Some (Inl (SliceError (the (g_lines m))), st)
      | Some sliced \<Rightarrow>
          (case get_recursive_content_list rec env cfg sliced filename parent recursive
                  (g_recursive m) st of
             None \<Rightarrow> None
           | Some (Inl e, st') \<Rightarrow> Some (Inl e, st')
           | Some (Inr textl', st') \<Rightarrow> Some (Inr (textl', stat), st')))"

text \<open>The remote branch (lines 310 to 332); \<open>filename\<close> is the path after \<^verbatim>\<open>expanduser\<close>.\<close>

definition include_remote ::
  "(string list \<Rightarrow> string \<Rightarrow> 'c state \<Rightarrow> (string list, 'c) res) \<Rightarrow> 'c env \<Rightarrow> config \<Rightarrow>
   dmatch \<Rightarrow> string \<Rightarrow> string \<Rightarrow> string \<Rightarrow> 'c state \<Rightarrow> (string list \<times> bool, 'c) res" where
  "include_remote rec env cfg m filename enc parent st =
     (if allow_remote cfg then
        (let url = rstrip_slash (urlunparse env filename);
             st1 = st\<lparr>cyclic := Cyclic_add env (cyclic st) url parent\<rparr>
         in case self_get_remote_content_list env cfg url enc st1 of
              ((textl, stat), st2) \<Rightarrow>
                slice_and_recurse rec env cfg m textl stat url parent (recursive_remote cfg) st2)
      else Some (Inr ([], False), st))"

text \<open>The key of a local file (lines 335 to 339).\<close>

definition resolve_local :: "'c env \<Rightarrow> config \<Rightarrow> string \<Rightarrow> string \<Rightarrow> string" where
  "resolve_local env cfg filename parent =
     (if \<not> isabs env filename then
        (if recursive_relative_path cfg \<and> parent \<noteq> [] then
           normpath env (path_join env (dirname env parent) filename)
         else normpath env (path_join env (base_path cfg) filename))
      else filename)"

text \<open>The local branch (lines 333 to 360).\<close>

definition include_local ::
  "(string list \<Rightarrow> string \<Rightarrow> 'c state \<Rightarrow> (string list, 'c) res) \<Rightarrow> 'c env \<Rightarrow> config \<Rightarrow>
   dmatch \<Rightarrow> string \<Rightarrow> string \<Rightarrow> string \<Rightarrow> 'c state \<Rightarrow> (string list \<times> bool, 'c) res" where
  "include_local rec env cfg m filename enc parent st =
     (if allow_local cfg then
        (let key = resolve_local env cfg filename parent;
             st1 = st\<lparr>cyclic := Cyclic_add env (cyclic st) key parent\<rparr>
         in case self_get_local_content_list env cfg key enc st1 of
              ((textl, stat), st2) \<Rightarrow>
                slice_and_recurse rec env cfg m textl stat key parent (recursive_local cfg) st2)
      else Some (Inr ([], False), st))"

text \<open>
  Lines 287 to 363: the content \<^verbatim>\<open>textl\<close> and the status \<^verbatim>\<open>stat\<close> of one match. An escaped
  match keeps its text without the first character.
\<close>

definition get_content ::
  "(string list \<Rightarrow> string \<Rightarrow> 'c state \<Rightarrow> (string list, 'c) res) \<Rightarrow> 'c env \<Rightarrow> config \<Rightarrow>
   dmatch \<Rightarrow> string \<Rightarrow> 'c state \<Rightarrow> (string list \<times> bool, 'c) res" where
  "get_content rec env cfg m parent st =
     (if \<not> truthy (g_escape m) then
        (let filename = expanduser env (g_path m);
             enc = (if \<not> encoding_exists env (g_encoding m) then encoding cfg
                    else the (g_encoding m))
         in if urlparse_netloc env filename \<noteq> [] then
              include_remote rec env cfg m filename enc parent st
            else include_local rec env cfg m filename enc parent st)
      else Some (Inr ([drop 1 (group0 m)], True), st))"

text \<open>Lines 365 to 367: a failed retrieval keeps the directive unless truncation is on.\<close>

definition failure_policy :: "config \<Rightarrow> dmatch \<Rightarrow> string list \<times> bool \<Rightarrow> string list" where
  "failure_policy cfg m r =
     (case r of (textl, stat) \<Rightarrow>
        if \<not> stat \<and> \<not> truncate_on_failure cfg then [group0 m] else textl)"

text \<open>Lines 287 to 367 together: the lines that replace the match.\<close>

definition match_content ::
  "(string list \<Rightarrow> string \<Rightarrow> 'c state \<Rightarrow> (string list, 'c) res) \<Rightarrow> 'c env \<Rightarrow> config \<Rightarrow>
   dmatch \<Rightarrow> string \<Rightarrow> 'c state \<Rightarrow> (string list, 'c) res" where
  "match_content rec env cfg m parent st =
     (case get_content rec env cfg m parent st of
        None \<Rightarrow> None
      | Some (Inl e, st') \<Rightarrow> Some (Inl e, st')
      | Some (Inr r, st') \<Rightarrow> Some (Inr (failure_policy cfg m r), st'))"

subsection \<open>Indentation and splicing\<close>

text \<open>\<^verbatim>\<open>len(item) - len(item.lstrip())\<close> and the test \<^verbatim>\<open>item.strip()\<close>.\<close>

definition leading_space :: "string \<Rightarrow> nat" where
  "leading_space item = length item - length (dropWhile is_space item)"

definition not_blank :: "string \<Rightarrow> bool" where
  "not_blank item = (filter (\<lambda>c. \<not> is_space c) item \<noteq> [])"

text \<open>\<^verbatim>\<open>min\<close> of a sequence: a \<^verbatim>\<open>ValueError\<close> when the sequence is empty.\<close>

definition py_min :: "nat list \<Rightarrow> error + nat" where
  "py_min ns = (case ns of [] \<Rightarrow> Inl MinEmptySequence | n # rest \<Rightarrow> Inr (fold min rest n))"

text \<open>Lines 374 to 379, for a content list \<open>textl\<close> that is not empty.\<close>

definition strip_indent :: "dmatch \<Rightarrow> string list \<Rightarrow> error + string list" where
  "strip_indent m textl =
     (if truthy (g_strip_indent m) then
        (case py_min (map leading_space (filter not_blank textl)) of
           Inl e \<Rightarrow> Inl e
         | Inr num_common_spaces \<Rightarrow> Inr (map (drop num_common_spaces) textl))
      else Inr textl)"

text \<open>
  Lines 369 to 391: the new value of \<^verbatim>\<open>resll\<close>, from the line, the current offset \<open>c\<close>, the
  match and its content.
\<close>

definition splice ::
  "string \<Rightarrow> nat \<Rightarrow> dmatch \<Rightarrow> string list \<Rightarrow> string list \<Rightarrow> error + string list" where
  "splice line c m textl resll =
     (if textl \<noteq> [] then
        (case strip_indent m textl of
           Inl e \<Rightarrow> Inl e
         | Inr textl' \<Rightarrow>
             if resll \<noteq> [] then
               Inr (butlast resll @ [last resll @ py_slice line c (span_s m) @ hd textl']
                    @ tl textl')
             else if g_apply_indent m \<noteq> Some [] then
               Inr (map (\<lambda>element. py_slice line c (span_s m) @ element) textl')
             else Inr (resll @ [py_slice line c (span_s m) @ hd textl'] @ tl textl'))
      else Inr (resll @ [py_slice line c (span_s m)]))"

subsection \<open>Lines and runs\<close>

text \<open>The body of the loop over the matches of a line (lines 287 to 393).\<close>

definition process_match ::
  "(string list \<Rightarrow> string \<Rightarrow> 'c state \<Rightarrow> (string list, 'c) res) \<Rightarrow> 'c env \<Rightarrow> config \<Rightarrow>
   string \<Rightarrow> string \<Rightarrow> dmatch \<Rightarrow> string list \<Rightarrow> nat \<Rightarrow> 'c state \<Rightarrow>
   (string list \<times> nat, 'c) res" where
  "process_match rec env cfg line parent m resll c st =
     (case match_content rec env cfg m parent st of
        None \<Rightarrow> None
      | Some (Inl e, st') \<Rightarrow> Some (Inl e, st')
      | Some (Inr textl, st') \<Rightarrow>
          (case splice line c m textl resll of
             Inl e \<Rightarrow> Some (Inl e, st')
           | Inr resll' \<Rightarrow> Some (Inr (resll', span_e m), st')))"

text \<open>The loop \<^verbatim>\<open>for m in ms\<close> (line 286).\<close>

fun process_matches ::
  "(string list \<Rightarrow> string \<Rightarrow> 'c state \<Rightarrow> (string list, 'c) res) \<Rightarrow> 'c env \<Rightarrow> config \<Rightarrow>
   string \<Rightarrow> string \<Rightarrow> dmatch list \<Rightarrow> string list \<Rightarrow> nat \<Rightarrow> 'c state \<Rightarrow>
   (string list \<times> nat, 'c) res" where
  "process_matches rec env cfg line parent [] resll c st = Some (Inr (resll, c), st)"
| "process_matches rec env cfg line parent (m # ms) resll c st =
     (case process_match rec env cfg line parent m resll c st of
        None \<Rightarrow> None
      | Some (Inl e, st') \<Rightarrow> Some (Inl e, st')
      | Some (Inr (resll', c'), st') \<Rightarrow> process_matches rec env cfg line parent ms resll' c' st')"

text \<open>One line (lines 282 to 399): its matches, then the rest of the line.\<close>

definition process_line ::
  "(string list \<Rightarrow> string \<Rightarrow> 'c state \<Rightarrow> (string list, 'c) res) \<Rightarrow> 'c env \<Rightarrow> config \<Rightarrow>
   string \<Rightarrow> string \<Rightarrow> 'c state \<Rightarrow> (string list, 'c) res" where
  "process_line rec env cfg line parent st =
     (case process_matches rec env cfg line parent (re_finditer env line) [] 0 st of
        None \<Rightarrow> None
      | Some (Inl e, st') \<Rightarrow> Some (Inl e, st')
      | Some (Inr (resll, c), st') \<Rightarrow>
          Some (Inr (if resll \<noteq> [] then butlast resll @ [last resll @ drop c line]
                     else resll @ [drop c line]), st'))"

text \<open>The loop \<^verbatim>\<open>for line in lines\<close> (lines 279 to 402).\<close>

fun process_lines ::
  "(string list \<Rightarrow> string \<Rightarrow> 'c state \<Rightarrow> (string list, 'c) res) \<Rightarrow> 'c env \<Rightarrow> config \<Rightarrow>
   string list \<Rightarrow> string list \<Rightarrow> string \<Rightarrow> 'c state \<Rightarrow> (string list, 'c) res" where
  "process_lines rec env cfg new_lines [] parent st = Some (Inr new_lines, st)"
| "process_lines rec env cfg new_lines (line # lines) parent st =
     (case process_line rec env cfg line parent st of
        None \<Rightarrow> None
      | Some (Inl e, st') \<Rightarrow> Some (Inl e, st')
      | Some (Inr resll, st') \<Rightarrow> process_lines rec env cfg (new_lines @ resll) lines parent st')"

text \<open>
  \<^verbatim>\<open>mdx_include_get_processed_lines\<close> (lines 277 to 402). The fuel bounds the depth of
  inclusion: each recursive call through an included file has one unit less.
\<close>

primrec mdx_include_get_processed_lines ::
  "'c env \<Rightarrow> config \<Rightarrow> nat \<Rightarrow> string list \<Rightarrow> string \<Rightarrow> 'c state \<Rightarrow> (string list, 'c) res" where
  "mdx_include_get_processed_lines env cfg 0 = (\<lambda>lines parent st. None)"
| "mdx_include_get_processed_lines env cfg (Suc fuel) =
     process_lines (mdx_include_get_processed_lines env cfg fuel) env cfg []"

text \<open>
  \<^verbatim>\<open>mdx_include_content_cache_clean_local\<close> and \<^verbatim>\<open>mdx_include_content_cache_clean_remote\<close>
  (lines 212 to 218).
\<close>

definition mdx_include_content_cache_clean_local :: "'c state \<Rightarrow> 'c state" where
  "mdx_include_content_cache_clean_local st = st\<lparr>mdx_include_content_cache_local := Map.empty\<rparr>"

definition mdx_include_content_cache_clean_remote :: "'c state \<Rightarrow> 'c state" where
  "mdx_include_content_cache_clean_remote st = st\<lparr>mdx_include_content_cache_remote := Map.empty\<rparr>"

text \<open>\<^verbatim>\<open>run\<close> (lines 404 to 415).\<close>

definition run :: "'c env \<Rightarrow> config \<Rightarrow> nat \<Rightarrow> string list \<Rightarrow> 'c state \<Rightarrow> (string list, 'c) res" where
  "run env cfg fuel lines st =
     (case mdx_include_get_processed_lines env cfg fuel lines []
             (st\<lparr>cyclic := Cyclic_new env\<rparr>) of
        None \<Rightarrow> None
      | Some (Inl e, st1) \<Rightarrow> Some (Inl e, st1)
      | Some (Inr new_lines, st1) \<Rightarrow>
          (let st2 = (if content_cache_clean_local cfg
                      then mdx_include_content_cache_clean_local st1 else st1);
               st3 = (if content_cache_clean_remote cfg
                      then mdx_include_content_cache_clean_remote st2 else st2)
           in Some (Inr new_lines, st3)))"

section \<open>A cycle tracker\<close>

text \<open>
  Modelled from the spec: the cycle tracker of the package \<^verbatim>\<open>cyclic\<close>, which the module
  imports and the repository does not contain. It keeps, for each key, the ancestors seen
  so far; \<^verbatim>\<open>add\<close> merges the parent and the parent's ancestors into the child's, and a key is
  cyclic when it is among its own ancestors. The model of the preprocessor takes the
  tracker as a parameter; this one runs the examples, and the lemmas on the fuel a run
  needs are about it.
\<close>

type_synonym tracker = "string \<rightharpoonup> string list"

definition tracker_add :: "tracker \<Rightarrow> string \<Rightarrow> string \<Rightarrow> tracker" where
  "tracker_add root child parent =
     root(child \<mapsto> remdups ((case root child of None \<Rightarrow> [] | Some ps \<Rightarrow> ps) @ [parent] @
                              (case root parent of None \<Rightarrow> [] | Some ps \<Rightarrow> ps)))"

definition tracker_is_cyclic :: "tracker \<Rightarrow> string \<Rightarrow> bool" where
  "tracker_is_cyclic root key = (case root key of None \<Rightarrow> False | Some ps \<Rightarrow> key \<in> set ps)"

section \<open>Notions used in the statements\<close>

text \<open>A string whose first character exists and is not white space.\<close>

definition starts_nonspace :: "string \<Rightarrow> bool" where
  "starts_nonspace s = (case s of [] \<Rightarrow> False | ch # _ \<Rightarrow> \<not> is_space ch)"

text \<open>
  What \<open>splice\<close> makes of \<^verbatim>\<open>resll\<close> for a content of one line \<open>t\<close> that indentation
  stripping leaves alone: \<open>t\<close> follows the text between the offset and the match, on the
  last output line of the current input line if there is one.
\<close>

definition splice_one :: "string \<Rightarrow> nat \<Rightarrow> dmatch \<Rightarrow> string \<Rightarrow> string list \<Rightarrow> string list" where
  "splice_one line c m t resll =
     (if resll \<noteq> [] then butlast resll @ [last resll @ py_slice line c (span_s m) @ t]
      else [py_slice line c (span_s m) @ t])"



text \<open>Both caches of \<open>s'\<close> extend those of \<open>s\<close>: no entry is removed or replaced.\<close>

definition caches_grow :: "'c state \<Rightarrow> 'c state \<Rightarrow> bool" where
  "caches_grow s s' \<longleftrightarrow>
     mdx_include_content_cache_local s \<subseteq>\<^sub>m mdx_include_content_cache_local s' \<and>
     mdx_include_content_cache_remote s \<subseteq>\<^sub>m mdx_include_content_cache_remote s'"

text \<open>The retrieval calls of one kind for one key, in order: the status of each.\<close>

definition retrievals :: "kind \<Rightarrow> string \<Rightarrow> io_event list \<Rightarrow> bool list" where
  "retrievals k key evs =
     map (\<lambda>ev. case ev of Retrieval _ _ _ ok \<Rightarrow> ok)
       (filter (\<lambda>ev. case ev of Retrieval k' f _ _ \<Rightarrow> k' = k \<and> f = key) evs)"




text \<open>
  A relation between states that every step of the preprocessor respects: it is reflexive
  and transitive and holds across a call of \<^verbatim>\<open>cyclic.add\<close> and across a call of either
  caching accessor. \<open>rec_respects\<close> says the same of the recursive call.
\<close>

definition step_closed :: "('c state \<Rightarrow> 'c state \<Rightarrow> bool) \<Rightarrow> 'c env \<Rightarrow> config \<Rightarrow> bool" where
  "step_closed R env cfg \<longleftrightarrow>
     (\<forall>s. R s s) \<and> (\<forall>s t u. R s t \<longrightarrow> R t u \<longrightarrow> R s u) \<and>
     (\<forall>s key parent. R s (s\<lparr>cyclic := Cyclic_add env (cyclic s) key parent\<rparr>)) \<and>
     (\<forall>f enc s. R s (snd (self_get_local_content_list env cfg f enc s))) \<and>
     (\<forall>f enc s. R s (snd (self_get_remote_content_list env cfg f enc s)))"

definition rec_respects ::
  "('c state \<Rightarrow> 'c state \<Rightarrow> bool) \<Rightarrow>
   (string list \<Rightarrow> string \<Rightarrow> 'c state \<Rightarrow> (string list, 'c) res) \<Rightarrow> bool" where
  "rec_respects R rec \<longleftrightarrow> (\<forall>textl f s r s'. rec textl f s = Some (r, s') \<longrightarrow> R s s')"

text \<open>
  For the fuel a run needs with the tracker above: the recorded ancestors of a key,
  together with the key; the keys of both caches; an environment that uses that tracker;
  the keys some retrieval succeeds for; a slicer that returns no lines for no lines; the
  relation of two states of which the later has at least the ancestors of the earlier,
  and cached keys within \<open>K\<close> if the earlier has; and a recursive call that returns
  whenever it is given no lines and one unit of fuel, or two units more than there are
  keys of \<open>K\<close> outside the ancestors of the file.
\<close>

definition ancestors :: "tracker state \<Rightarrow> string \<Rightarrow> string set" where
  "ancestors s k = insert k (case cyclic s k of None \<Rightarrow> {} | Some ps \<Rightarrow> set ps)"

definition cached_keys :: "'c state \<Rightarrow> string set" where
  "cached_keys s = dom (mdx_include_content_cache_local s) \<union> dom (mdx_include_content_cache_remote s)"

definition uses_tracker :: "tracker env \<Rightarrow> bool" where
  "uses_tracker env \<longleftrightarrow>
     Cyclic_new env = Map.empty \<and> Cyclic_add env = tracker_add \<and>
     Cyclic_is_cyclic env = tracker_is_cyclic"

definition retrievable :: "'c env \<Rightarrow> string set" where
  "retrievable env = {k. \<exists>enc. open_read env k enc \<noteq> None \<or> url_open_read env k enc \<noteq> None}"

definition slicer_keeps_empty :: "'c env \<Rightarrow> bool" where
  "slicer_keeps_empty env \<longleftrightarrow> (\<forall>spec r. RowSlice_slice env [] spec = Some r \<longrightarrow> r = [])"

definition tracked :: "string set \<Rightarrow> tracker state \<Rightarrow> tracker state \<Rightarrow> bool" where
  "tracked K s s' \<longleftrightarrow>
     (cached_keys s \<subseteq> K \<longrightarrow> cached_keys s' \<subseteq> K) \<and> (\<forall>k. ancestors s k \<subseteq> ancestors s' k)"

definition returns_within ::
  "string set \<Rightarrow> nat \<Rightarrow> (string list \<Rightarrow> string \<Rightarrow> tracker state \<Rightarrow> (string list, tracker) res) \<Rightarrow> bool" where
  "returns_within K n rec \<longleftrightarrow>
     (\<forall>textl f s. cached_keys s \<subseteq> K \<longrightarrow>
        (textl = [] \<and> 1 \<le> n \<or> card (K - ancestors s f) + 2 \<le> n) \<longrightarrow>
        (\<exists>r. rec textl f s = Some r))"

text \<open>The exceptions of line 239, and a recursive call that never ends in one.\<close>

definition is_circular :: "error \<Rightarrow> bool" where
  "is_circular e = (case e of CircularInclusion _ _ _ \<Rightarrow> True | KeyError _ \<Rightarrow> True | _ \<Rightarrow> False)"

definition never_circular ::
  "(string list \<Rightarrow> string \<Rightarrow> 'c state \<Rightarrow> (string list, 'c) res) \<Rightarrow> bool" where
  "never_circular rec \<longleftrightarrow>
     (\<forall>textl f s e s'. rec textl f s = Some (Inl e, s') \<longrightarrow> \<not> is_circular e)"

section \<open>An example project\<close>

text \<open>
  A match of the default pattern that is not escaped and names no encoding: start offset,
  matched text, and the groups \<^verbatim>\<open>recursive\<close>, \<^verbatim>\<open>strip_indent\<close>, \<^verbatim>\<open>apply_indent\<close>, \<^verbatim>\<open>path\<close>
  and \<^verbatim>\<open>lines\<close>. With the default pattern the two indent groups always take part in a
  match, with the empty string when the marker is absent.
\<close>

definition dm ::
  "nat \<Rightarrow> string \<Rightarrow> string option \<Rightarrow> string \<Rightarrow> string \<Rightarrow> string \<Rightarrow> string option \<Rightarrow> dmatch" where
  "dm s text rec_g strip_g apply_g path lines_g =
     \<lparr> group0 = text, g_escape = None, g_recursive = rec_g, g_strip_indent = Some strip_g,
       g_apply_indent = Some apply_g, g_path = path, g_lines = lines_g, g_encoding = None,
       span_s = s, span_e = s + length text \<rparr>"

text \<open>The escaped directive \<^verbatim>\<open>\{! a.md !}\<close> at the start of a line.\<close>

definition escaped_example :: dmatch where
  "escaped_example =
     (dm 0 (CHR 0x5C # ''{! a.md !}'') None [] [] ''a.md'' None)\<lparr>g_escape := Some [CHR 0x5C]\<rparr>"

text \<open>
  What the default pattern finds on the lines of the examples; it finds nothing on any
  other line that occurs in them.
\<close>

definition example_matches :: "string \<Rightarrow> dmatch list" where
  "example_matches line =
     (case map_of
        [(''{! a.md !}'', [dm 0 ''{! a.md !}'' None [] [] ''a.md'' None]),
         (''{!+ a.md !}'', [dm 0 ''{!+ a.md !}'' (Some ''+'') [] [] ''a.md'' None]),
         (''{! b.md !}'', [dm 0 ''{! b.md !}'' None [] [] ''b.md'' None]),
         (''{! missing.md !} {! missing.md !}'',
            [dm 0 ''{! missing.md !}'' None [] [] ''missing.md'' None,
             dm 17 ''{! missing.md !}'' None [] [] ''missing.md'' None]),
         (''{! two.md [ln:2] !}'',
            [dm 0 ''{! two.md [ln:2] !}'' None [] [] ''two.md'' (Some ''2'')]),
         (''X {! b.md !} Y {!> ind.md !}'',
            [dm 2 ''{! b.md !}'' None [] [] ''b.md'' None,
             dm 15 ''{!> ind.md !}'' None [] ''>'' ''ind.md'' None]),
         (''  {!> ind.md !}'', [dm 2 ''{!> ind.md !}'' None [] ''>'' ''ind.md'' None]),
         (''{!< blank.md !}'', [dm 0 ''{!< blank.md !}'' None ''<'' [] ''blank.md'' None]),
         (''{! cyc1.md !}'', [dm 0 ''{! cyc1.md !}'' None [] [] ''cyc1.md'' None]),
         (''{! cyc2.md !}'', [dm 0 ''{! cyc2.md !}'' None [] [] ''cyc2.md'' None]),
         (''{! ~/n.md !}'', [dm 0 ''{! ~/n.md !}'' None [] [] ''~/n.md'' None]),
         (CHR 0x5C # ''{! a.md !}'', [escaped_example])]
        line of
        None \<Rightarrow> [] | Some ms \<Rightarrow> ms)"

text \<open>The files of the example, the same in every encoding; \<^verbatim>\<open>blank.md\<close> is empty.\<close>

definition example_files :: "string \<Rightarrow> string \<Rightarrow> string option" where
  "example_files f enc =
     map_of
       [(''a.md'', ''A1'' @ [CHR 0x0A] @ ''{! b.md !}''),
        (''b.md'', ''B1''),
        (''two.md'', ''L1'' @ [CHR 0x0A] @ ''L2'' @ [CHR 0x0A] @ ''L3''),
        (''ind.md'', ''  x'' @ [CHR 0x0A] @ ''    y''),
        (''blank.md'', []),
        (''cyc1.md'', ''{! cyc2.md !}''),
        (''cyc2.md'', ''{! cyc1.md !}''),
        (''/home/u/n.md'', ''N'')] f"

text \<open>
  The environment of the examples: a POSIX system whose user has the home directory
  \<^verbatim>\<open>/home/u\<close>, no network, and a slicer that is only asked for line 2. The path functions
  agree with \<^verbatim>\<open>posixpath\<close> on the paths of the examples.
\<close>

definition example_env :: "tracker env" where
  "example_env =
     \<lparr> re_finditer = example_matches,
       encodings_modules = [''aliases'', ''ascii'', ''latin_1'', ''utf_8''],
       open_read = example_files,
       url_open_read = (\<lambda>url enc. None),
       expanduser = (\<lambda>p. if take 2 p = ''~/'' then ''/home/u'' @ drop 1 p else p),
       urlparse_netloc =
         (\<lambda>u. if take 7 u = ''http://'' then takeWhile (\<lambda>c. c \<noteq> CHR ''/'') (drop 7 u)
              else []),
       urlunparse = (\<lambda>u. u),
       isabs = (\<lambda>p. take 1 p = ''/''),
       normpath = (\<lambda>p. if take 2 p = ''./'' then drop 2 p else p),
       path_join = (\<lambda>a b. if take 1 b = ''/'' then b else a @ ''/'' @ b),
       dirname = (\<lambda>p. rev (drop 1 (dropWhile (\<lambda>c. c \<noteq> CHR ''/'') (rev p)))),
       RowSlice_slice =
         (\<lambda>textl spec. if spec = ''2'' then Some (take 1 (drop 1 textl)) else None),
       Cyclic_new = Map.empty,
       Cyclic_add = tracker_add,
       Cyclic_is_cyclic = tracker_is_cyclic,
       Cyclic_root = (\<lambda>root. root) \<rparr>"

text \<open>A preprocessor that has not run yet: empty caches, no retrieval made.\<close>

definition state0 :: "tracker state" where
  "state0 = \<lparr> mdx_include_content_cache_local = Map.empty,
              mdx_include_content_cache_remote = Map.empty,
              cyclic = Map.empty, io_trace = [] \<rparr>"


text \<open>
  The recursive call \<open>rec'\<close> returns whatever \<open>rec\<close> returns: \<open>rec'\<close> has at least the fuel
  of \<open>rec\<close>.
\<close>

definition rec_le ::
  "(string list \<Rightarrow> string \<Rightarrow> 'c state \<Rightarrow> (string list, 'c) res) \<Rightarrow>
   (string list \<Rightarrow> string \<Rightarrow> 'c state \<Rightarrow> (string list, 'c) res) \<Rightarrow> bool" where
  "rec_le rec rec' \<longleftrightarrow> (\<forall>textl f s r. rec textl f s = Some r \<longrightarrow> rec' textl f s = Some r)"

section \<open>Lemmas\<close>

subsection \<open>Every step respects a closed relation\<close>

text \<open>
  A relation that holds across the three state changes of the preprocessor (tracker
  update, local accessor, remote accessor) holds across every function built from them,
  whatever the result: a value or an exception.
\<close>

lemma step_closed_refl: "step_closed R env cfg \<Longrightarrow> R s s"
  by (simp add: step_closed_def)

lemma step_closed_trans: "step_closed R env cfg \<Longrightarrow> R s t \<Longrightarrow> R t u \<Longrightarrow> R s u"
  unfolding step_closed_def by blast

lemma cyclic_safe_respects:
  assumes "step_closed R env cfg" "rec_respects R rec"
    and "mdx_include_get_cyclic_safe_processed_line_list rec env cfg textl f p s = Some (r, s')"
  shows "R s s'"
  using assms
  by (auto simp: mdx_include_get_cyclic_safe_processed_line_list_def rec_respects_def
      step_closed_def split: if_splits option.splits)

lemma get_recursive_respects:
  assumes "step_closed R env cfg" "rec_respects R rec"
    and "get_recursive_content_list rec env cfg textl f p recursive rs s = Some (r, s')"
  shows "R s s'"
  using assms cyclic_safe_respects[OF assms(1,2)]
  by (auto simp: get_recursive_content_list_def step_closed_def split: if_splits)

lemma slice_and_recurse_respects:
  assumes "step_closed R env cfg" "rec_respects R rec"
    and "slice_and_recurse rec env cfg m textl stat f p recursive s = Some (r, s')"
  shows "R s s'"
  using assms get_recursive_respects[OF assms(1,2)]
  by (auto simp: slice_and_recurse_def step_closed_def split: if_splits option.splits sum.splits prod.splits)

lemma include_remote_respects:
  assumes "step_closed R env cfg" "rec_respects R rec"
    and "include_remote rec env cfg m f enc p s = Some (r, s')"
  shows "R s s'"
proof (cases "allow_remote cfg")
  case False
  with assms show ?thesis by (simp add: include_remote_def step_closed_def)
next
  case True
  define url where "url = rstrip_slash (urlunparse env f)"
  define s1 where "s1 = s\<lparr>cyclic := Cyclic_add env (cyclic s) url p\<rparr>"
  obtain textl stat s2 where g: "self_get_remote_content_list env cfg url enc s1 = ((textl, stat), s2)"
    by (metis prod.exhaust)
  have a: "R s s1" using assms(1) by (simp add: s1_def step_closed_def)
  have b: "R s1 s2" using assms(1) g unfolding step_closed_def by (metis snd_conv)
  have "slice_and_recurse rec env cfg m textl stat url p (recursive_remote cfg) s2 = Some (r, s')"
    using assms(3) True g by (simp add: include_remote_def url_def s1_def Let_def)
  then have "R s2 s'" by (rule slice_and_recurse_respects[OF assms(1,2)])
  with a b show ?thesis using step_closed_trans[OF assms(1)] by blast
qed

lemma include_local_respects:
  assumes "step_closed R env cfg" "rec_respects R rec"
    and "include_local rec env cfg m f enc p s = Some (r, s')"
  shows "R s s'"
proof (cases "allow_local cfg")
  case False
  with assms show ?thesis by (simp add: include_local_def step_closed_def)
next
  case True
  define key where "key = resolve_local env cfg f p"
  define s1 where "s1 = s\<lparr>cyclic := Cyclic_add env (cyclic s) key p\<rparr>"
  obtain textl stat s2 where g: "self_get_local_content_list env cfg key enc s1 = ((textl, stat), s2)"
    by (metis prod.exhaust)
  have a: "R s s1" using assms(1) by (simp add: s1_def step_closed_def)
  have b: "R s1 s2" using assms(1) g unfolding step_closed_def by (metis snd_conv)
  have "slice_and_recurse rec env cfg m textl stat key p (recursive_local cfg) s2 = Some (r, s')"
    using assms(3) True g by (simp add: include_local_def key_def s1_def Let_def)
  then have "R s2 s'" by (rule slice_and_recurse_respects[OF assms(1,2)])
  with a b show ?thesis using step_closed_trans[OF assms(1)] by blast
qed

lemma get_content_respects:
  assumes "step_closed R env cfg" "rec_respects R rec"
    and "get_content rec env cfg m p s = Some (r, s')"
  shows "R s s'"
  using assms include_local_respects[OF assms(1,2)] include_remote_respects[OF assms(1,2)]
  by (auto simp: get_content_def Let_def step_closed_def split: if_splits)

lemma match_content_respects:
  assumes "step_closed R env cfg" "rec_respects R rec"
    and "match_content rec env cfg m p s = Some (r, s')"
  shows "R s s'"
  using assms get_content_respects[OF assms(1,2)]
  by (auto simp: match_content_def split: option.splits sum.splits prod.splits)

lemma process_match_respects:
  assumes "step_closed R env cfg" "rec_respects R rec"
    and "process_match rec env cfg line p m resll c s = Some (r, s')"
  shows "R s s'"
  using assms match_content_respects[OF assms(1,2)]
  by (auto simp: process_match_def split: option.splits sum.splits prod.splits)

lemma process_matches_respects:
  assumes "step_closed R env cfg" "rec_respects R rec"
  shows "process_matches rec env cfg line p ms resll c s = Some (r, s') \<Longrightarrow> R s s'"
proof (induction ms arbitrary: resll c s)
  case Nil
  then show ?case using assms(1) by (simp add: step_closed_def)
next
  case (Cons m ms)
  show ?case
  proof (cases "process_match rec env cfg line p m resll c s")
    case None
    with Cons.prems show ?thesis by simp
  next
    case (Some a)
    obtain v s1 where a: "a = (v, s1)" by (cases a)
    have r1: "R s s1" using process_match_respects[OF assms] Some a by blast
    show ?thesis
    proof (cases v)
      case (Inl e)
      with Cons.prems Some a r1 show ?thesis by simp
    next
      case (Inr w)
      obtain resll' c' where w: "w = (resll', c')" by (cases w)
      with Cons.prems Some a Inr
      have "process_matches rec env cfg line p ms resll' c' s1 = Some (r, s')" by simp
      then have "R s1 s'" by (rule Cons.IH)
      with r1 show ?thesis using step_closed_trans[OF assms(1)] by blast
    qed
  qed
qed

lemma process_line_respects:
  assumes "step_closed R env cfg" "rec_respects R rec"
    and "process_line rec env cfg line p s = Some (r, s')"
  shows "R s s'"
  using assms process_matches_respects[OF assms(1,2)]
  by (auto simp: process_line_def split: option.splits sum.splits prod.splits)

lemma process_lines_respects:
  assumes "step_closed R env cfg" "rec_respects R rec"
  shows "process_lines rec env cfg acc lines p s = Some (r, s') \<Longrightarrow> R s s'"
proof (induction lines arbitrary: acc s)
  case Nil
  then show ?case using assms(1) by (simp add: step_closed_def)
next
  case (Cons line lines)
  show ?case
  proof (cases "process_line rec env cfg line p s")
    case None
    with Cons.prems show ?thesis by simp
  next
    case (Some a)
    obtain v s1 where a: "a = (v, s1)" by (cases a)
    have r1: "R s s1" using process_line_respects[OF assms] Some a by blast
    show ?thesis
    proof (cases v)
      case (Inl e)
      with Cons.prems Some a r1 show ?thesis by simp
    next
      case (Inr resll)
      with Cons.prems Some a
      have "process_lines rec env cfg (acc @ resll) lines p s1 = Some (r, s')" by simp
      then have "R s1 s'" by (rule Cons.IH)
      with r1 show ?thesis using step_closed_trans[OF assms(1)] by blast
    qed
  qed
qed

lemma mdx_respects:
  assumes "step_closed R env cfg"
  shows "rec_respects R (mdx_include_get_processed_lines env cfg fuel)"
proof (induction fuel)
  case 0
  show ?case by (simp add: rec_respects_def)
next
  case (Suc fuel)
  show ?case
    unfolding rec_respects_def
    using process_lines_respects[OF assms Suc] by auto
qed

subsection \<open>The caches only grow while lines are processed\<close>

lemma self_get_local_grows: "caches_grow s (snd (self_get_local_content_list env cfg f enc s))"
  by (auto simp: caches_grow_def self_get_local_content_list_def get_local_content_list_def
      map_le_def split: option.splits)

lemma self_get_remote_grows: "caches_grow s (snd (self_get_remote_content_list env cfg f enc s))"
  by (auto simp: caches_grow_def self_get_remote_content_list_def get_remote_content_list_def
      map_le_def split: option.splits)

lemma caches_grow_closed: "step_closed caches_grow env cfg"
  unfolding step_closed_def
proof (intro conjI allI impI)
  fix s t u :: "'a state"
  assume "caches_grow s t" "caches_grow t u"
  then show "caches_grow s u"
    unfolding caches_grow_def using map_le_trans by blast
qed (simp_all add: self_get_local_grows self_get_remote_grows, simp_all add: caches_grow_def)

lemma mdx_caches_grow:
  "mdx_include_get_processed_lines env cfg fuel lines parent s = Some (r, s') \<Longrightarrow> caches_grow s s'"
  using mdx_respects[OF caches_grow_closed, of env cfg fuel] unfolding rec_respects_def by blast

subsection \<open>The discipline of a cache that is switched on\<close>

lemma retrievals_append [simp]: "retrievals k key (xs @ ys) = retrievals k key xs @ retrievals k key ys"
  by (simp add: retrievals_def)

lemma retrievals_Nil [simp]: "retrievals k key [] = []"
  by (simp add: retrievals_def)










subsection \<open>More fuel never changes a result\<close>

lemma cyclic_safe_fuel:
  assumes "rec_le rec rec'"
    and "mdx_include_get_cyclic_safe_processed_line_list rec env cfg textl f p s = Some r"
  shows "mdx_include_get_cyclic_safe_processed_line_list rec' env cfg textl f p s = Some r"
proof (cases "Cyclic_is_cyclic env (cyclic s) f")
  case True
  with assms(2) show ?thesis
    by (simp add: mdx_include_get_cyclic_safe_processed_line_list_def)
next
  case False
  with assms(2) have "rec textl f s = Some r"
    by (simp add: mdx_include_get_cyclic_safe_processed_line_list_def)
  then have "rec' textl f s = Some r" using assms(1) unfolding rec_le_def by blast
  with False show ?thesis
    by (simp add: mdx_include_get_cyclic_safe_processed_line_list_def)
qed

lemma get_recursive_fuel:
  assumes "rec_le rec rec'"
    and "get_recursive_content_list rec env cfg textl f p rv rs s = Some r"
  shows "get_recursive_content_list rec' env cfg textl f p rv rs s = Some r"
  using assms cyclic_safe_fuel[OF assms(1)]
  by (auto simp: get_recursive_content_list_def split: if_splits)

lemma slice_and_recurse_fuel:
  assumes "rec_le rec rec'"
    and "slice_and_recurse rec env cfg m textl stat f p rv s = Some r"
  shows "slice_and_recurse rec' env cfg m textl stat f p rv s = Some r"
proof (cases "if truthy (g_lines m) then RowSlice_slice env textl (the (g_lines m)) else Some textl")
  case None
  with assms(2) show ?thesis by (simp add: slice_and_recurse_def)
next
  case (Some sliced)
  show ?thesis
  proof (cases "get_recursive_content_list rec env cfg sliced f p rv (g_recursive m) s")
    case None
    with assms(2) Some show ?thesis by (simp add: slice_and_recurse_def)
  next
    case (Some a)
    then have "get_recursive_content_list rec' env cfg sliced f p rv (g_recursive m) s = Some a"
      by (rule get_recursive_fuel[OF assms(1)])
    with assms(2) Some \<open>_ = Some sliced\<close> show ?thesis by (simp add: slice_and_recurse_def)
  qed
qed

lemma include_remote_fuel:
  assumes "rec_le rec rec'" and "include_remote rec env cfg m f enc p s = Some r"
  shows "include_remote rec' env cfg m f enc p s = Some r"
  using assms slice_and_recurse_fuel[OF assms(1)]
  by (auto simp: include_remote_def Let_def split: if_splits prod.splits)

lemma include_local_fuel:
  assumes "rec_le rec rec'" and "include_local rec env cfg m f enc p s = Some r"
  shows "include_local rec' env cfg m f enc p s = Some r"
  using assms slice_and_recurse_fuel[OF assms(1)]
  by (auto simp: include_local_def Let_def split: if_splits prod.splits)

lemma get_content_fuel:
  assumes "rec_le rec rec'" and "get_content rec env cfg m p s = Some r"
  shows "get_content rec' env cfg m p s = Some r"
  using assms include_remote_fuel[OF assms(1)] include_local_fuel[OF assms(1)]
  by (auto simp: get_content_def Let_def split: if_splits)

lemma match_content_fuel:
  assumes "rec_le rec rec'" and "match_content rec env cfg m p s = Some r"
  shows "match_content rec' env cfg m p s = Some r"
proof (cases "get_content rec env cfg m p s")
  case None
  with assms(2) show ?thesis by (simp add: match_content_def)
next
  case (Some a)
  then have "get_content rec' env cfg m p s = Some a" by (rule get_content_fuel[OF assms(1)])
  with assms(2) Some show ?thesis by (simp add: match_content_def)
qed

lemma process_match_fuel:
  assumes "rec_le rec rec'" and "process_match rec env cfg line p m resll c s = Some r"
  shows "process_match rec' env cfg line p m resll c s = Some r"
proof (cases "match_content rec env cfg m p s")
  case None
  with assms(2) show ?thesis by (simp add: process_match_def)
next
  case (Some a)
  then have "match_content rec' env cfg m p s = Some a" by (rule match_content_fuel[OF assms(1)])
  with assms(2) Some show ?thesis by (simp add: process_match_def)
qed

lemma process_matches_fuel:
  assumes "rec_le rec rec'"
  shows "process_matches rec env cfg line p ms resll c s = Some r
         \<Longrightarrow> process_matches rec' env cfg line p ms resll c s = Some r"
proof (induction ms arbitrary: resll c s)
  case Nil
  then show ?case by simp
next
  case (Cons m ms)
  show ?case
  proof (cases "process_match rec env cfg line p m resll c s")
    case None
    with Cons.prems show ?thesis by simp
  next
    case (Some a)
    then have a': "process_match rec' env cfg line p m resll c s = Some a"
      by (rule process_match_fuel[OF assms])
    obtain v s1 where a: "a = (v, s1)" by (cases a)
    show ?thesis
    proof (cases v)
      case (Inl e)
      with Cons.prems Some a have "r = a" by simp
      with a' a Inl show ?thesis by simp
    next
      case (Inr w)
      obtain resll' c' where w: "w = (resll', c')" by (cases w)
      with Cons.prems Some a Inr
      have "process_matches rec env cfg line p ms resll' c' s1 = Some r" by simp
      then have "process_matches rec' env cfg line p ms resll' c' s1 = Some r" by (rule Cons.IH)
      with a' a Inr w show ?thesis by simp
    qed
  qed
qed

lemma process_line_fuel:
  assumes "rec_le rec rec'" and "process_line rec env cfg line p s = Some r"
  shows "process_line rec' env cfg line p s = Some r"
proof (cases "process_matches rec env cfg line p (re_finditer env line) [] 0 s")
  case None
  with assms(2) show ?thesis by (simp add: process_line_def)
next
  case (Some a)
  then have "process_matches rec' env cfg line p (re_finditer env line) [] 0 s = Some a"
    by (rule process_matches_fuel[OF assms(1)])
  with assms(2) Some show ?thesis by (simp add: process_line_def)
qed

lemma process_lines_fuel:
  assumes "rec_le rec rec'"
  shows "process_lines rec env cfg acc lines p s = Some r
         \<Longrightarrow> process_lines rec' env cfg acc lines p s = Some r"
proof (induction lines arbitrary: acc s)
  case Nil
  then show ?case by simp
next
  case (Cons line lines)
  show ?case
  proof (cases "process_line rec env cfg line p s")
    case None
    with Cons.prems show ?thesis by simp
  next
    case (Some a)
    then have a': "process_line rec' env cfg line p s = Some a"
      by (rule process_line_fuel[OF assms])
    obtain v s1 where a: "a = (v, s1)" by (cases a)
    show ?thesis
    proof (cases v)
      case (Inl e)
      with Cons.prems Some a have "r = a" by simp
      with a' a Inl show ?thesis by simp
    next
      case (Inr resll)
      with Cons.prems Some a
      have "process_lines rec env cfg (acc @ resll) lines p s1 = Some r" by simp
      then have "process_lines rec' env cfg (acc @ resll) lines p s1 = Some r" by (rule Cons.IH)
      with a' a Inr show ?thesis by simp
    qed
  qed
qed

lemma mdx_fuel_step:
  "rec_le (mdx_include_get_processed_lines env cfg fuel)
          (mdx_include_get_processed_lines env cfg (Suc fuel))"
proof (induction fuel)
  case 0
  show ?case by (simp add: rec_le_def)
next
  case (Suc fuel)
  show ?case
    unfolding rec_le_def
    using process_lines_fuel[OF Suc] by auto
qed

lemma mdx_more_fuel:
  "mdx_include_get_processed_lines env cfg fuel lines parent st = Some r
   \<Longrightarrow> mdx_include_get_processed_lines env cfg (fuel + extra) lines parent st = Some r"
proof (induction extra)
  case 0
  then show ?case by simp
next
  case (Suc extra)
  then have "mdx_include_get_processed_lines env cfg (fuel + extra) lines parent st = Some r"
    by simp
  then have "mdx_include_get_processed_lines env cfg (Suc (fuel + extra)) lines parent st = Some r"
    using mdx_fuel_step[of env cfg "fuel + extra"] unfolding rec_le_def by blast
  then show ?case by simp
qed

lemma run_more_fuel:
  "run env cfg fuel lines st = Some r \<Longrightarrow> run env cfg (fuel + extra) lines st = Some r"
proof -
  assume a: "run env cfg fuel lines st = Some r"
  then obtain x where x: "mdx_include_get_processed_lines env cfg fuel lines []
      (st\<lparr>cyclic := Cyclic_new env\<rparr>) = Some x"
    by (auto simp: run_def split: option.splits)
  from mdx_more_fuel[OF x] a x show ?thesis by (simp add: run_def)
qed

subsection \<open>Indentation stripping and splicing\<close>

text \<open>
  Stripping raises exactly when it is requested and no line of the content has a character
  that is not white space; otherwise it drops the least indentation of those lines from
  every line. \<open>drop\<close> shortens a line that is shorter than that, as the Python slice does.
\<close>

lemma strip_indent_raises_iff:
  "(\<exists>e. strip_indent m textl = Inl e) \<longleftrightarrow>
     truthy (g_strip_indent m) \<and> filter not_blank textl = []"
  by (auto simp: strip_indent_def py_min_def split: list.splits)

lemma strip_indent_removes_minimum:
  assumes "truthy (g_strip_indent m)" and "filter not_blank textl \<noteq> []"
  shows "strip_indent m textl =
           Inr (map (drop (Min (leading_space ` {item \<in> set textl. not_blank item}))) textl)"
proof -
  obtain x xs where f: "filter not_blank textl = x # xs"
    using assms(2) by (cases "filter not_blank textl") auto
  have "fold min (map leading_space xs) (leading_space x)
          = Min (set (map leading_space (x # xs)))"
    unfolding list.map by (rule Min.set_eq_fold[symmetric])
  also have "set (map leading_space (x # xs)) = leading_space ` {item \<in> set textl. not_blank item}"
    using f by (metis set_filter set_map)
  finally show ?thesis using assms(1) f by (simp add: strip_indent_def py_min_def)
qed

lemma strip_indent_single:
  assumes "\<not> truthy (g_strip_indent m) \<or> starts_nonspace t"
  shows "strip_indent m [t] = Inr [t]"
proof (cases "truthy (g_strip_indent m)")
  case False
  then show ?thesis by (simp add: strip_indent_def)
next
  case True
  with assms have "starts_nonspace t" by simp
  then obtain ch rest where t: "t = ch # rest" "\<not> is_space ch"
    by (auto simp: starts_nonspace_def split: list.splits)
  then have "not_blank t" "leading_space t = 0"
    by (simp_all add: not_blank_def leading_space_def)
  then show ?thesis using True by (simp add: strip_indent_def py_min_def)
qed

lemma splice_single:
  assumes "\<not> truthy (g_strip_indent m) \<or> starts_nonspace t"
  shows "splice line c m [t] resll = Inr (splice_one line c m t resll)"
  using strip_indent_single[OF assms] by (simp add: splice_def splice_one_def)

lemma splice_nonempty: "splice line c m textl resll = Inr resll' \<Longrightarrow> resll' \<noteq> []"
  by (auto simp: splice_def strip_indent_def split: if_splits sum.splits)

lemma process_match_nonempty:
  "process_match rec env cfg line parent m resll c st = Some (Inr (resll', c'), st')
   \<Longrightarrow> resll' \<noteq> [] \<and> c' = span_e m"
  by (auto simp: process_match_def split: option.splits sum.splits prod.splits
      dest: splice_nonempty)

subsection \<open>Failed retrievals\<close>

text \<open>
  The status of a directive that is not escaped is the status its retrieval returned, and
  \<^verbatim>\<open>False\<close> when its kind is not allowed. A failed retrieval returns no lines, and neither
  slicing (when the slicer maps no lines to no lines) nor recursion adds any.
\<close>

lemma slice_and_recurse_stat:
  "slice_and_recurse rec env cfg m textl stat f p rv s = Some (Inr (t, stat'), s') \<Longrightarrow> stat' = stat"
  by (auto simp: slice_and_recurse_def split: if_splits option.splits sum.splits prod.splits)

lemma get_content_status:
  assumes "\<not> truthy (g_escape m)"
    and "get_content rec env cfg m parent st = Some (Inr (textl, stat), st')"
    and "filename = expanduser env (g_path m)"
    and "enc = (if \<not> encoding_exists env (g_encoding m) then encoding cfg else the (g_encoding m))"
  shows "stat =
     (if urlparse_netloc env filename \<noteq> [] then
        allow_remote cfg \<and>
        snd (fst (self_get_remote_content_list env cfg (rstrip_slash (urlunparse env filename)) enc
          (st\<lparr>cyclic := Cyclic_add env (cyclic st) (rstrip_slash (urlunparse env filename)) parent\<rparr>)))
      else
        allow_local cfg \<and>
        snd (fst (self_get_local_content_list env cfg (resolve_local env cfg filename parent) enc
          (st\<lparr>cyclic := Cyclic_add env (cyclic st) (resolve_local env cfg filename parent) parent\<rparr>))))"
  using assms
  by (auto simp: get_content_def include_local_def include_remote_def Let_def
      split: if_splits prod.splits dest: slice_and_recurse_stat)

lemma disallowed_kind_is_failure:
  assumes "\<not> truthy (g_escape m)"
    and "if urlparse_netloc env (expanduser env (g_path m)) \<noteq> [] then \<not> allow_remote cfg
         else \<not> allow_local cfg"
  shows "get_content rec env cfg m parent st = Some (Inr ([], False), st)"
  using assms by (auto simp: get_content_def include_local_def include_remote_def Let_def
      split: if_splits)

lemma self_get_local_failed:
  "self_get_local_content_list env cfg f enc s = ((textl, False), s2) \<Longrightarrow> textl = []"
  by (auto simp: self_get_local_content_list_def get_local_content_list_def
      split: if_splits option.splits)

lemma self_get_remote_failed:
  "self_get_remote_content_list env cfg f enc s = ((textl, False), s2) \<Longrightarrow> textl = []"
  by (auto simp: self_get_remote_content_list_def get_remote_content_list_def
      split: if_splits option.splits)







subsection \<open>Exceptions are not caught\<close>

text \<open>
  The source has no handler around any of these calls: an exception raised for a directive
  leaves the loop over the matches, the loop over the lines, every enclosing recursive
  call and \<^verbatim>\<open>run\<close>, together with the state reached.
\<close>

lemma cyclic_safe_raises:
  "\<not> Cyclic_is_cyclic env (cyclic st) filename \<Longrightarrow> rec textl filename st = Some (Inl e, st')
   \<Longrightarrow> mdx_include_get_cyclic_safe_processed_line_list rec env cfg textl filename parent st
       = Some (Inl e, st')"
  by (simp add: mdx_include_get_cyclic_safe_processed_line_list_def)

lemma slice_and_recurse_raises:
  assumes "(if truthy (g_lines m) then RowSlice_slice env textl (the (g_lines m)) else Some textl)
             = Some sliced"
    and "get_recursive_content_list rec env cfg sliced filename parent recursive (g_recursive m) st
           = Some (Inl e, st')"
  shows "slice_and_recurse rec env cfg m textl stat filename parent recursive st = Some (Inl e, st')"
  using assms by (simp add: slice_and_recurse_def)

lemma include_local_raises:
  assumes "allow_local cfg" and "key = resolve_local env cfg filename parent"
    and "self_get_local_content_list env cfg key enc
           (st\<lparr>cyclic := Cyclic_add env (cyclic st) key parent\<rparr>) = ((textl, stat), st2)"
    and "slice_and_recurse rec env cfg m textl stat key parent (recursive_local cfg) st2
           = Some (Inl e, st')"
  shows "include_local rec env cfg m filename enc parent st = Some (Inl e, st')"
  using assms by (simp add: include_local_def Let_def)

lemma include_remote_raises:
  assumes "allow_remote cfg" and "url = rstrip_slash (urlunparse env filename)"
    and "self_get_remote_content_list env cfg url enc
           (st\<lparr>cyclic := Cyclic_add env (cyclic st) url parent\<rparr>) = ((textl, stat), st2)"
    and "slice_and_recurse rec env cfg m textl stat url parent (recursive_remote cfg) st2
           = Some (Inl e, st')"
  shows "include_remote rec env cfg m filename enc parent st = Some (Inl e, st')"
  using assms by (simp add: include_remote_def Let_def)

lemma match_content_raises:
  "get_content rec env cfg m parent st = Some (Inl e, st')
   \<Longrightarrow> match_content rec env cfg m parent st = Some (Inl e, st')"
  by (simp add: match_content_def)

lemma get_content_raises:
  assumes "\<not> truthy (g_escape m)"
    and "enc = (if \<not> encoding_exists env (g_encoding m) then encoding cfg else the (g_encoding m))"
    and "(if urlparse_netloc env (expanduser env (g_path m)) \<noteq> [] then
            include_remote rec env cfg m (expanduser env (g_path m)) enc parent st
          else include_local rec env cfg m (expanduser env (g_path m)) enc parent st)
           = Some (Inl e, st')"
  shows "get_content rec env cfg m parent st = Some (Inl e, st')"
  using assms by (auto simp: get_content_def Let_def split: if_splits)

lemma process_match_raises:
  "match_content rec env cfg m parent st = Some (Inl e, st')
   \<Longrightarrow> process_match rec env cfg line parent m resll c st = Some (Inl e, st')"
  by (simp add: process_match_def)

lemma process_matches_raises:
  "process_match rec env cfg line parent m resll c st = Some (Inl e, st')
   \<Longrightarrow> process_matches rec env cfg line parent (m # ms) resll c st = Some (Inl e, st')"
  by simp

lemma process_line_raises:
  "process_matches rec env cfg line parent (re_finditer env line) [] 0 st = Some (Inl e, st')
   \<Longrightarrow> process_line rec env cfg line parent st = Some (Inl e, st')"
  by (simp add: process_line_def)

lemma process_lines_raises:
  "process_line rec env cfg line parent st = Some (Inl e, st')
   \<Longrightarrow> process_lines rec env cfg new_lines (line # lines) parent st = Some (Inl e, st')"
  by simp

lemma process_matches_append:
  "process_matches rec env cfg line parent (ms @ ms') resll c st =
     (case process_matches rec env cfg line parent ms resll c st of
        None \<Rightarrow> None
      | Some (Inl e, st') \<Rightarrow> Some (Inl e, st')
      | Some (Inr (resll', c'), st') \<Rightarrow> process_matches rec env cfg line parent ms' resll' c' st')"
  by (induction ms arbitrary: resll c st) (auto split: option.splits sum.splits prod.splits)

lemma process_lines_append:
  "process_lines rec env cfg new_lines (lines @ lines') parent st =
     (case process_lines rec env cfg new_lines lines parent st of
        None \<Rightarrow> None
      | Some (Inl e, st') \<Rightarrow> Some (Inl e, st')
      | Some (Inr new_lines', st') \<Rightarrow> process_lines rec env cfg new_lines' lines' parent st')"
  by (induction lines arbitrary: new_lines st) (auto split: option.splits sum.splits prod.splits)

lemma mdx_raises:
  "process_lines (mdx_include_get_processed_lines env cfg fuel) env cfg [] lines parent st
     = Some (Inl e, st')
   \<Longrightarrow> mdx_include_get_processed_lines env cfg (Suc fuel) lines parent st = Some (Inl e, st')"
  by simp

lemma run_raises:
  "mdx_include_get_processed_lines env cfg fuel lines [] (st\<lparr>cyclic := Cyclic_new env\<rparr>)
     = Some (Inl e, st')
   \<Longrightarrow> run env cfg fuel lines st = Some (Inl e, st')"
  by (simp add: run_def)

subsection \<open>No circular-inclusion error when circular inclusion is allowed\<close>

lemma cyclic_safe_never:
  assumes "allow_circular_inclusion cfg" and "never_circular rec"
    and "mdx_include_get_cyclic_safe_processed_line_list rec env cfg textl f p s = Some (Inl e, s')"
  shows "\<not> is_circular e"
proof (cases "Cyclic_is_cyclic env (cyclic s) f")
  case True
  with assms(1,3) show ?thesis
    by (simp add: mdx_include_get_cyclic_safe_processed_line_list_def)
next
  case False
  with assms(3) have "rec textl f s = Some (Inl e, s')"
    by (simp add: mdx_include_get_cyclic_safe_processed_line_list_def)
  with assms(2) show ?thesis unfolding never_circular_def by blast
qed

lemma get_recursive_never:
  assumes "allow_circular_inclusion cfg" and "never_circular rec"
    and "get_recursive_content_list rec env cfg textl f p rv rs s = Some (Inl e, s')"
  shows "\<not> is_circular e"
  using assms cyclic_safe_never[OF assms(1,2)]
  by (auto simp: get_recursive_content_list_def split: if_splits)

lemma slice_and_recurse_never:
  assumes "allow_circular_inclusion cfg" and "never_circular rec"
    and "slice_and_recurse rec env cfg m textl stat f p rv s = Some (Inl e, s')"
  shows "\<not> is_circular e"
  using assms get_recursive_never[OF assms(1,2)]
  by (auto simp: slice_and_recurse_def is_circular_def
      split: if_splits option.splits sum.splits prod.splits)

lemma include_local_never:
  assumes "allow_circular_inclusion cfg" and "never_circular rec"
    and "include_local rec env cfg m f enc p s = Some (Inl e, s')"
  shows "\<not> is_circular e"
  using assms slice_and_recurse_never[OF assms(1,2)]
  by (auto simp: include_local_def Let_def split: if_splits prod.splits)

lemma include_remote_never:
  assumes "allow_circular_inclusion cfg" and "never_circular rec"
    and "include_remote rec env cfg m f enc p s = Some (Inl e, s')"
  shows "\<not> is_circular e"
  using assms slice_and_recurse_never[OF assms(1,2)]
  by (auto simp: include_remote_def Let_def split: if_splits prod.splits)

lemma match_content_never:
  assumes "allow_circular_inclusion cfg" and "never_circular rec"
    and "match_content rec env cfg m p s = Some (Inl e, s')"
  shows "\<not> is_circular e"
  using assms include_local_never[OF assms(1,2)] include_remote_never[OF assms(1,2)]
  by (auto simp: match_content_def get_content_def Let_def
      split: if_splits option.splits sum.splits prod.splits)

lemma splice_never: "splice line c m textl resll = Inl e \<Longrightarrow> \<not> is_circular e"
  by (auto simp: splice_def strip_indent_def py_min_def is_circular_def
      split: if_splits sum.splits list.splits)

lemma process_match_never:
  assumes "allow_circular_inclusion cfg" and "never_circular rec"
    and "process_match rec env cfg line p m resll c s = Some (Inl e, s')"
  shows "\<not> is_circular e"
  using assms match_content_never[OF assms(1,2)] splice_never
  by (auto simp: process_match_def split: option.splits sum.splits prod.splits)

lemma process_matches_never:
  assumes "allow_circular_inclusion cfg" and "never_circular rec"
  shows "process_matches rec env cfg line p ms resll c s = Some (Inl e, s') \<Longrightarrow> \<not> is_circular e"
proof (induction ms arbitrary: resll c s)
  case Nil
  then show ?case by simp
next
  case (Cons m ms)
  show ?case
  proof (cases "process_match rec env cfg line p m resll c s")
    case None
    with Cons.prems show ?thesis by simp
  next
    case (Some a)
    obtain v s1 where a: "a = (v, s1)" by (cases a)
    show ?thesis
    proof (cases v)
      case (Inl e')
      with Cons.prems Some a have "e' = e" by simp
      with Some a Inl show ?thesis using process_match_never[OF assms] by blast
    next
      case (Inr w)
      obtain resll' c' where w: "w = (resll', c')" by (cases w)
      with Cons.prems Some a Inr
      have "process_matches rec env cfg line p ms resll' c' s1 = Some (Inl e, s')" by simp
      then show ?thesis by (rule Cons.IH)
    qed
  qed
qed

lemma process_line_never:
  assumes "allow_circular_inclusion cfg" and "never_circular rec"
    and "process_line rec env cfg line p s = Some (Inl e, s')"
  shows "\<not> is_circular e"
  using assms process_matches_never[OF assms(1,2)]
  by (auto simp: process_line_def split: option.splits sum.splits prod.splits)

lemma process_lines_never:
  assumes "allow_circular_inclusion cfg" and "never_circular rec"
  shows "process_lines rec env cfg acc lines p s = Some (Inl e, s') \<Longrightarrow> \<not> is_circular e"
proof (induction lines arbitrary: acc s)
  case Nil
  then show ?case by simp
next
  case (Cons line lines)
  show ?case
  proof (cases "process_line rec env cfg line p s")
    case None
    with Cons.prems show ?thesis by simp
  next
    case (Some a)
    obtain v s1 where a: "a = (v, s1)" by (cases a)
    show ?thesis
    proof (cases v)
      case (Inl e')
      with Cons.prems Some a have "e' = e" by simp
      with Some a Inl show ?thesis using process_line_never[OF assms] by blast
    next
      case (Inr resll)
      with Cons.prems Some a
      have "process_lines rec env cfg (acc @ resll) lines p s1 = Some (Inl e, s')" by simp
      then show ?thesis by (rule Cons.IH)
    qed
  qed
qed

lemma mdx_never_circular:
  assumes "allow_circular_inclusion cfg"
  shows "never_circular (mdx_include_get_processed_lines env cfg fuel)"
proof (induction fuel)
  case 0
  show ?case by (simp add: never_circular_def)
next
  case (Suc fuel)
  show ?case
    unfolding never_circular_def
    using process_lines_never[OF assms Suc] by auto
qed

lemma run_never_circular:
  assumes "allow_circular_inclusion cfg" and "run env cfg fuel lines st = Some (Inl e, st')"
  shows "\<not> is_circular e"
proof -
  have "mdx_include_get_processed_lines env cfg fuel lines [] (st\<lparr>cyclic := Cyclic_new env\<rparr>)
          = Some (Inl e, st')"
    using assms(2)
    by (auto simp: run_def Let_def split: option.splits sum.splits prod.splits if_splits)
  then show ?thesis using mdx_never_circular[OF assms(1)] unfolding never_circular_def by blast
qed

subsection \<open>Every run returns\<close>

text \<open>
  With the tracker modelled from the spec, a slicer that keeps the empty list empty, and a
  finite set \<open>K\<close> that holds every key a retrieval succeeds for and every cached key, a
  run returns with fuel \<open>card K + 2\<close>, and so with any more (\<open>run_more_fuel\<close>): each
  recursive call is for a key outside the recorded ancestors of its parent, and its own
  ancestors include them.
\<close>

lemma ancestors_add:
  "ancestors (s\<lparr>cyclic := tracker_add (cyclic s) c p\<rparr>) k =
     (if k = c then ancestors s c \<union> ancestors s p else ancestors s k)"
  by (auto simp: ancestors_def tracker_add_def split: option.splits)

lemma not_cyclic_fresh:
  assumes "\<not> tracker_is_cyclic (tracker_add (cyclic s) c p) c"
  shows "c \<notin> ancestors s p"
  using assms by (auto simp: tracker_is_cyclic_def tracker_add_def ancestors_def split: option.splits)

lemma tracked_closed:
  assumes "uses_tracker env" and "retrievable env \<subseteq> K"
  shows "step_closed (tracked K) env cfg"
  unfolding step_closed_def
proof (intro conjI allI impI)
  fix s :: "tracker state"
  show "tracked K s s" by (simp add: tracked_def)
next
  fix s t u :: "tracker state"
  assume "tracked K s t" "tracked K t u"
  then show "tracked K s u" unfolding tracked_def by (meson subset_trans)
next
  fix s :: "tracker state" and key parent
  show "tracked K s (s\<lparr>cyclic := Cyclic_add env (cyclic s) key parent\<rparr>)"
    using assms(1) by (auto simp: tracked_def uses_tracker_def ancestors_add cached_keys_def)
next
  fix f enc and s :: "tracker state"
  have "open_read env f enc \<noteq> None \<Longrightarrow> f \<in> K"
    using assms(2) by (auto simp: retrievable_def)
  then show "tracked K s (snd (self_get_local_content_list env cfg f enc s))"
    by (auto simp: tracked_def self_get_local_content_list_def get_local_content_list_def
        cached_keys_def ancestors_def split: option.splits if_splits)
next
  fix f enc and s :: "tracker state"
  have "url_open_read env f enc \<noteq> None \<Longrightarrow> f \<in> K"
    using assms(2) by (auto simp: retrievable_def)
  then show "tracked K s (snd (self_get_remote_content_list env cfg f enc s))"
    by (auto simp: tracked_def self_get_remote_content_list_def get_remote_content_list_def
        cached_keys_def ancestors_def split: option.splits if_splits)
qed


lemma cyclic_safe_returns:
  assumes "returns_within K n rec" and "cached_keys s \<subseteq> K"
    and "Cyclic_is_cyclic env (cyclic s) f \<or> textl = [] \<and> 1 \<le> n \<or>
         card (K - ancestors s f) + 2 \<le> n"
  shows "\<exists>r. mdx_include_get_cyclic_safe_processed_line_list rec env cfg textl f p s = Some r"
proof (cases "Cyclic_is_cyclic env (cyclic s) f")
  case True
  then show ?thesis
    by (simp add: mdx_include_get_cyclic_safe_processed_line_list_def split: option.splits)
next
  case False
  with assms have "\<exists>r. rec textl f s = Some r" unfolding returns_within_def by blast
  with False show ?thesis by (simp add: mdx_include_get_cyclic_safe_processed_line_list_def)
qed

lemma get_recursive_returns:
  assumes "returns_within K n rec" and "cached_keys s \<subseteq> K"
    and "Cyclic_is_cyclic env (cyclic s) f \<or> textl = [] \<and> 1 \<le> n \<or>
         card (K - ancestors s f) + 2 \<le> n"
  shows "\<exists>r. get_recursive_content_list rec env cfg textl f p rv rs s = Some r"
  using cyclic_safe_returns[OF assms] by (simp add: get_recursive_content_list_def)

lemma slice_and_recurse_returns:
  assumes "returns_within K n rec" and "cached_keys s \<subseteq> K" and "slicer_keeps_empty env"
    and "Cyclic_is_cyclic env (cyclic s) f \<or> textl = [] \<and> 1 \<le> n \<or>
         card (K - ancestors s f) + 2 \<le> n"
  shows "\<exists>r. slice_and_recurse rec env cfg m textl stat f p rv s = Some r"
proof (cases "if truthy (g_lines m) then RowSlice_slice env textl (the (g_lines m)) else Some textl")
  case None
  then show ?thesis by (simp add: slice_and_recurse_def)
next
  case (Some sliced)
  have "textl = [] \<Longrightarrow> sliced = []"
    using Some assms(3) by (auto simp: slicer_keeps_empty_def split: if_splits)
  with assms(4) have "Cyclic_is_cyclic env (cyclic s) f \<or> sliced = [] \<and> 1 \<le> n \<or>
         card (K - ancestors s f) + 2 \<le> n" by blast
  from get_recursive_returns[OF assms(1,2) this]
  obtain r where "get_recursive_content_list rec env cfg sliced f p rv (g_recursive m) s = Some r"
    by blast
  with Some show ?thesis
    by (cases r) (auto simp: slice_and_recurse_def split: sum.splits)
qed

lemma descend_bound:
  assumes "finite K" and "key \<in> K" and "key \<notin> ancestors s p"
    and "ancestors s p \<subseteq> ancestors s2 key" and "key \<in> ancestors s2 key"
    and "card (K - ancestors s p) + 2 \<le> Suc n"
  shows "card (K - ancestors s2 key) + 2 \<le> n"
proof -
  have "K - ancestors s2 key \<subset> K - ancestors s p" using assms(2-5) by blast
  then have "card (K - ancestors s2 key) < card (K - ancestors s p)"
    using assms(1) by (simp add: psubset_card_mono)
  with assms(6) show ?thesis by simp
qed

lemma include_local_returns:
  assumes "uses_tracker env" and "retrievable env \<subseteq> K" and "finite K"
    and "slicer_keeps_empty env" and "returns_within K n rec"
    and "cached_keys s \<subseteq> K" and "card (K - ancestors s p) + 2 \<le> Suc n"
  shows "\<exists>r. include_local rec env cfg m f enc p s = Some r"
proof (cases "allow_local cfg")
  case False
  then show ?thesis by (simp add: include_local_def)
next
  case True
  define key where "key = resolve_local env cfg f p"
  define s1 where "s1 = s\<lparr>cyclic := Cyclic_add env (cyclic s) key p\<rparr>"
  obtain textl stat s2 where g: "self_get_local_content_list env cfg key enc s1 = ((textl, stat), s2)"
    by (metis prod.exhaust)
  have c2: "cyclic s2 = tracker_add (cyclic s) key p"
    using g assms(1)
    by (auto simp: self_get_local_content_list_def get_local_content_list_def s1_def
        uses_tracker_def split: if_splits option.splits)
  have k1: "cached_keys s1 \<subseteq> K" using assms(6) by (simp add: s1_def cached_keys_def)
  have "tracked K s1 s2"
    using tracked_closed[OF assms(1,2), of cfg] g unfolding step_closed_def by (metis snd_conv)
  with k1 have k2: "cached_keys s2 \<subseteq> K" by (simp add: tracked_def)
  have a2: "ancestors s2 key = ancestors s key \<union> ancestors s p"
    using c2 by (auto simp: ancestors_def tracker_add_def split: option.splits)
  have pre: "Cyclic_is_cyclic env (cyclic s2) key \<or> textl = [] \<and> 1 \<le> n \<or>
         card (K - ancestors s2 key) + 2 \<le> n"
  proof (cases "Cyclic_is_cyclic env (cyclic s2) key")
    case True
    then show ?thesis by simp
  next
    case nc: False
    show ?thesis
    proof (cases stat)
      case False
      with g have "self_get_local_content_list env cfg key enc s1 = ((textl, False), s2)" by simp
      then have "textl = []" by (rule self_get_local_failed)
      moreover have "1 \<le> n" using assms(7) by simp
      ultimately show ?thesis by simp
    next
      case True
      have "key \<in> K"
      proof (cases "mdx_include_content_cache_local s1 key")
        case None
        with g True have "open_read env key enc \<noteq> None"
          by (auto simp: self_get_local_content_list_def get_local_content_list_def
              split: if_splits option.splits)
        then show ?thesis using assms(2) by (auto simp: retrievable_def)
      next
        case (Some a)
        then show ?thesis using k1 by (auto simp: cached_keys_def)
      qed
      moreover have "key \<notin> ancestors s p"
        using nc c2 assms(1) not_cyclic_fresh by (simp add: uses_tracker_def)
      moreover have "ancestors s p \<subseteq> ancestors s2 key" "key \<in> ancestors s2 key"
        using a2 by (auto simp: ancestors_def)
      ultimately have "card (K - ancestors s2 key) + 2 \<le> n"
        using descend_bound[OF assms(3) _ _ _ _ assms(7)] by blast
      then show ?thesis by simp
    qed
  qed
  from slice_and_recurse_returns[OF assms(5) k2 assms(4) pre]
  show ?thesis using True g by (simp add: include_local_def key_def s1_def Let_def)
qed

lemma include_remote_returns:
  assumes "uses_tracker env" and "retrievable env \<subseteq> K" and "finite K"
    and "slicer_keeps_empty env" and "returns_within K n rec"
    and "cached_keys s \<subseteq> K" and "card (K - ancestors s p) + 2 \<le> Suc n"
  shows "\<exists>r. include_remote rec env cfg m f enc p s = Some r"
proof (cases "allow_remote cfg")
  case False
  then show ?thesis by (simp add: include_remote_def)
next
  case True
  define key where "key = rstrip_slash (urlunparse env f)"
  define s1 where "s1 = s\<lparr>cyclic := Cyclic_add env (cyclic s) key p\<rparr>"
  obtain textl stat s2 where g: "self_get_remote_content_list env cfg key enc s1 = ((textl, stat), s2)"
    by (metis prod.exhaust)
  have c2: "cyclic s2 = tracker_add (cyclic s) key p"
    using g assms(1)
    by (auto simp: self_get_remote_content_list_def get_remote_content_list_def s1_def
        uses_tracker_def split: if_splits option.splits)
  have k1: "cached_keys s1 \<subseteq> K" using assms(6) by (simp add: s1_def cached_keys_def)
  have "tracked K s1 s2"
    using tracked_closed[OF assms(1,2), of cfg] g unfolding step_closed_def by (metis snd_conv)
  with k1 have k2: "cached_keys s2 \<subseteq> K" by (simp add: tracked_def)
  have a2: "ancestors s2 key = ancestors s key \<union> ancestors s p"
    using c2 by (auto simp: ancestors_def tracker_add_def split: option.splits)
  have pre: "Cyclic_is_cyclic env (cyclic s2) key \<or> textl = [] \<and> 1 \<le> n \<or>
         card (K - ancestors s2 key) + 2 \<le> n"
  proof (cases "Cyclic_is_cyclic env (cyclic s2) key")
    case True
    then show ?thesis by simp
  next
    case nc: False
    show ?thesis
    proof (cases stat)
      case False
      with g have "self_get_remote_content_list env cfg key enc s1 = ((textl, False), s2)" by simp
      then have "textl = []" by (rule self_get_remote_failed)
      moreover have "1 \<le> n" using assms(7) by simp
      ultimately show ?thesis by simp
    next
      case True
      have "key \<in> K"
      proof (cases "mdx_include_content_cache_remote s1 key")
        case None
        with g True have "url_open_read env key enc \<noteq> None"
          by (auto simp: self_get_remote_content_list_def get_remote_content_list_def
              split: if_splits option.splits)
        then show ?thesis using assms(2) by (auto simp: retrievable_def)
      next
        case (Some a)
        then show ?thesis using k1 by (auto simp: cached_keys_def)
      qed
      moreover have "key \<notin> ancestors s p"
        using nc c2 assms(1) not_cyclic_fresh by (simp add: uses_tracker_def)
      moreover have "ancestors s p \<subseteq> ancestors s2 key" "key \<in> ancestors s2 key"
        using a2 by (auto simp: ancestors_def)
      ultimately have "card (K - ancestors s2 key) + 2 \<le> n"
        using descend_bound[OF assms(3) _ _ _ _ assms(7)] by blast
      then show ?thesis by simp
    qed
  qed
  from slice_and_recurse_returns[OF assms(5) k2 assms(4) pre]
  show ?thesis using True g by (simp add: include_remote_def key_def s1_def Let_def)
qed

lemma process_match_returns:
  assumes "uses_tracker env" and "retrievable env \<subseteq> K" and "finite K"
    and "slicer_keeps_empty env" and "returns_within K n rec"
    and "cached_keys s \<subseteq> K" and "card (K - ancestors s p) + 2 \<le> Suc n"
  shows "\<exists>r. process_match rec env cfg line p m resll c s = Some r"
proof -
  have "\<exists>r. get_content rec env cfg m p s = Some r"
    using include_local_returns[OF assms] include_remote_returns[OF assms]
    by (simp add: get_content_def Let_def)
  then obtain r where "get_content rec env cfg m p s = Some r" by blast
  then have "\<exists>r. match_content rec env cfg m p s = Some r"
    by (cases r) (auto simp: match_content_def split: sum.splits)
  then obtain r' where "match_content rec env cfg m p s = Some r'" by blast
  then show ?thesis
    by (cases r') (auto simp: process_match_def split: sum.splits)
qed

lemma bound_kept:
  assumes "finite K" and "tracked K s s'" and "card (K - ancestors s p) + 2 \<le> n"
  shows "card (K - ancestors s' p) + 2 \<le> n"
proof -
  have "K - ancestors s' p \<subseteq> K - ancestors s p" using assms(2) by (auto simp: tracked_def)
  then have "card (K - ancestors s' p) \<le> card (K - ancestors s p)"
    using assms(1) by (simp add: card_mono)
  with assms(3) show ?thesis by simp
qed

lemma process_matches_returns:
  assumes "uses_tracker env" and "retrievable env \<subseteq> K" and "finite K"
    and "slicer_keeps_empty env" and "returns_within K n rec"
    and "rec_respects (tracked K) rec"
  shows "cached_keys s \<subseteq> K \<Longrightarrow> card (K - ancestors s p) + 2 \<le> Suc n
         \<Longrightarrow> \<exists>r. process_matches rec env cfg line p ms resll c s = Some r"
proof (induction ms arbitrary: resll c s)
  case Nil
  then show ?case by simp
next
  case (Cons m ms)
  from process_match_returns[OF assms(1-5) Cons.prems]
  obtain a where a: "process_match rec env cfg line p m resll c s = Some a" by blast
  obtain v s1 where v: "a = (v, s1)" by (cases a)
  have t: "tracked K s s1"
    using process_match_respects[OF tracked_closed[OF assms(1,2)] assms(6)] a v by blast
  show ?case
  proof (cases v)
    case (Inl e)
    with a v show ?thesis by simp
  next
    case (Inr w)
    obtain resll' c' where w: "w = (resll', c')" by (cases w)
    have "cached_keys s1 \<subseteq> K" using t Cons.prems(1) by (simp add: tracked_def)
    moreover have "card (K - ancestors s1 p) + 2 \<le> Suc n"
      using bound_kept[OF assms(3) t Cons.prems(2)] .
    ultimately have "\<exists>r. process_matches rec env cfg line p ms resll' c' s1 = Some r"
      by (rule Cons.IH)
    with a v Inr w show ?thesis by simp
  qed
qed

lemma process_line_returns:
  assumes "uses_tracker env" and "retrievable env \<subseteq> K" and "finite K"
    and "slicer_keeps_empty env" and "returns_within K n rec"
    and "rec_respects (tracked K) rec"
    and "cached_keys s \<subseteq> K" and "card (K - ancestors s p) + 2 \<le> Suc n"
  shows "\<exists>r. process_line rec env cfg line p s = Some r"
proof -
  from process_matches_returns[OF assms]
  obtain a where "process_matches rec env cfg line p (re_finditer env line) [] 0 s = Some a"
    by blast
  then show ?thesis
    by (cases a) (auto simp: process_line_def split: sum.splits prod.splits)
qed

lemma process_lines_returns:
  assumes "uses_tracker env" and "retrievable env \<subseteq> K" and "finite K"
    and "slicer_keeps_empty env" and "returns_within K n rec"
    and "rec_respects (tracked K) rec"
  shows "cached_keys s \<subseteq> K \<Longrightarrow> card (K - ancestors s p) + 2 \<le> Suc n
         \<Longrightarrow> \<exists>r. process_lines rec env cfg acc lines p s = Some r"
proof (induction lines arbitrary: acc s)
  case Nil
  then show ?case by simp
next
  case (Cons line lines)
  from process_line_returns[OF assms Cons.prems]
  obtain a where a: "process_line rec env cfg line p s = Some a" by blast
  obtain v s1 where v: "a = (v, s1)" by (cases a)
  have t: "tracked K s s1"
    using process_line_respects[OF tracked_closed[OF assms(1,2)] assms(6)] a v by blast
  show ?case
  proof (cases v)
    case (Inl e)
    with a v show ?thesis by simp
  next
    case (Inr resll)
    have "cached_keys s1 \<subseteq> K" using t Cons.prems(1) by (simp add: tracked_def)
    moreover have "card (K - ancestors s1 p) + 2 \<le> Suc n"
      using bound_kept[OF assms(3) t Cons.prems(2)] .
    ultimately have "\<exists>r. process_lines rec env cfg (acc @ resll) lines p s1 = Some r"
      by (rule Cons.IH)
    with a v Inr show ?thesis by simp
  qed
qed

lemma mdx_returns_within:
  assumes "uses_tracker env" and "retrievable env \<subseteq> K" and "finite K"
    and "slicer_keeps_empty env"
  shows "returns_within K n (mdx_include_get_processed_lines env cfg n)"
proof (induction n)
  case 0
  show ?case by (simp add: returns_within_def)
next
  case (Suc n)
  have rr: "rec_respects (tracked K) (mdx_include_get_processed_lines env cfg n)"
    using mdx_respects[OF tracked_closed[OF assms(1,2)]] .
  show ?case
    unfolding returns_within_def
  proof (intro allI impI)
    fix textl :: "string list" and f :: string and s :: "tracker state"
    assume k: "cached_keys s \<subseteq> K"
      and pre: "textl = [] \<and> 1 \<le> Suc n \<or> card (K - ancestors s f) + 2 \<le> Suc n"
    show "\<exists>r. mdx_include_get_processed_lines env cfg (Suc n) textl f s = Some r"
    proof (cases "textl = []")
      case True
      then show ?thesis by simp
    next
      case False
      with pre have "card (K - ancestors s f) + 2 \<le> Suc n" by simp
      from process_lines_returns[OF assms Suc rr k this] show ?thesis by simp
    qed
  qed
qed

lemma run_returns:
  assumes "uses_tracker env" and "retrievable env \<subseteq> K" and "finite K"
    and "slicer_keeps_empty env" and "cached_keys st \<subseteq> K"
  shows "\<exists>r. run env cfg (card K + 2) lines st = Some r"
proof -
  let ?s0 = "st\<lparr>cyclic := Cyclic_new env\<rparr>"
  have k: "cached_keys ?s0 \<subseteq> K" using assms(5) by (simp add: cached_keys_def)
  have "card (K - ancestors ?s0 []) \<le> card K" using assms(3) by (simp add: card_mono)
  then have b: "card (K - ancestors ?s0 []) + 2 \<le> card K + 2" by simp
  from mdx_returns_within[OF assms(1-4), of "card K + 2" cfg] k b
  obtain r where "mdx_include_get_processed_lines env cfg (card K + 2) lines [] ?s0 = Some r"
    unfolding returns_within_def by blast
  then show ?thesis
    by (cases r) (auto simp: run_def Let_def split: sum.splits)
qed

subsection \<open>Runs of the example project\<close>

lemma some_result:
  "map_option fst x = Some v \<Longrightarrow> x = Some (v, snd (the x))"
  by (cases x) auto

text \<open>
  \<^verbatim>\<open>cyc1.md\<close> includes \<^verbatim>\<open>cyc2.md\<close>, which includes \<^verbatim>\<open>cyc1.md\<close>. With the default
  configuration the run ends in the exception of line 239; when circular inclusion is
  allowed it returns, and the second \<^verbatim>\<open>cyc1.md\<close> is included as it is.
\<close>

lemma cyclic_run_fails:
  "map_option fst (run example_env default_config 3 [''{! cyc1.md !}''] state0)
     = Some (Inl (CircularInclusion ''cyc2.md'' ''cyc1.md'' [''cyc2.md'', ''cyc1.md'', []]))"
  by code_simp

lemma cyclic_run_completes:
  "map_option fst (run example_env (default_config\<lparr>allow_circular_inclusion := True\<rparr>) 3
       [''{! cyc1.md !}''] state0) = Some (Inr [''{! cyc2.md !}''])"
  by code_simp

text \<open>
  Every run of the example project returns with fuel 10, whatever the document and the
  configuration are.
\<close>

lemma example_run_returns: "\<exists>r. run example_env cfg 10 lines state0 = Some r"
proof -
  let ?K = "set [''a.md'', ''b.md'', ''two.md'', ''ind.md'', ''blank.md'', ''cyc1.md'',
                 ''cyc2.md'', ''/home/u/n.md'']"
  have u: "uses_tracker example_env" by (simp add: uses_tracker_def example_env_def)
  have r: "retrievable example_env \<subseteq> ?K"
    by (auto simp: retrievable_def example_env_def example_files_def split: if_splits)
  have f: "finite ?K" by simp
  have s: "slicer_keeps_empty example_env"
    by (simp add: slicer_keeps_empty_def example_env_def)
  have c: "cached_keys state0 \<subseteq> ?K" by (simp add: cached_keys_def state0_def)
  have n: "card ?K + 2 = 10" by simp
  from run_returns[OF u r f s c, of cfg lines] show ?thesis unfolding n .
qed

text \<open>A path under the home directory is read there, whatever the base path is.\<close>

lemma home_directive_run:
  "map_option (\<lambda>r. (fst r, io_trace (snd r)))
     (run example_env (default_config\<lparr>base_path := ''docs''\<rparr>) 2 [''{! ~/n.md !}''] state0)
   = Some (Inr [''N''], [Retrieval Local ''/home/u/n.md'' ''utf-8'' True])"
  by code_simp

section \<open>The claims\<close>

subsection \<open>C1: the recursion toggle and the configured default\<close>




subsection \<open>C2: circular inclusion\<close>



subsection \<open>C3: escaped directives\<close>

text \<open>
  Claim C3. For a match whose escape group is present, the content that replaces the
  match is the matched text without its first character, for every environment, parent and
  configuration, and the state is returned unchanged: no retrieval is recorded, neither
  cache nor the tracker is touched, and nothing of the state is read. When the strip
  marker is absent, or the text after the escape character starts with a character that is
  not white space (it starts with the left delimiter), that text is spliced in as it is.
\<close>

theorem escaped_directive_is_literal:
  assumes "truthy (g_escape m)"
  shows "match_content rec env cfg m parent st = Some (Inr [drop 1 (group0 m)], st) \<and>
         (\<not> truthy (g_strip_indent m) \<or> starts_nonspace (drop 1 (group0 m)) \<longrightarrow>
          process_match rec env cfg line parent m resll c st =
            Some (Inr (splice_one line c m (drop 1 (group0 m)) resll, span_e m), st))"
proof -
  have a: "match_content rec env cfg m parent st = Some (Inr [drop 1 (group0 m)], st)"
    using assms by (simp add: match_content_def get_content_def failure_policy_def)
  show ?thesis
  proof (intro conjI impI)
    show "match_content rec env cfg m parent st = Some (Inr [drop 1 (group0 m)], st)" by (rule a)
  next
    assume "\<not> truthy (g_strip_indent m) \<or> starts_nonspace (drop 1 (group0 m))"
    from splice_single[OF this]
    show "process_match rec env cfg line parent m resll c st =
            Some (Inr (splice_one line c m (drop 1 (group0 m)) resll, span_e m), st)"
      by (simp add: process_match_def a)
  qed
qed

theorem escaped_directive_is_literal_witness:
  "truthy (g_escape escaped_example) \<and>
   match_content (mdx_include_get_processed_lines example_env default_config 1) example_env
       default_config escaped_example [] state0 = Some (Inr [''{! a.md !}''], state0) \<and>
   process_match (mdx_include_get_processed_lines example_env default_config 1) example_env
       default_config (CHR 0x5C # ''{! a.md !}'') [] escaped_example [] 0 state0
     = Some (Inr ([''{! a.md !}''], 11), state0)"
proof -
  have t: "truthy (g_escape escaped_example)"
    by (simp add: escaped_example_def truthy_def)
  have n: "\<not> truthy (g_strip_indent escaped_example)"
    by (simp add: escaped_example_def dm_def truthy_def)
  show ?thesis
    using t n escaped_directive_is_literal[OF t,
        of "mdx_include_get_processed_lines example_env default_config 1" example_env
          default_config "[]" state0 "CHR 0x5C # ''{! a.md !}''" "[]" 0]
    by (simp add: escaped_example_def dm_def splice_one_def py_slice_def)
qed

subsection \<open>C4: retrievals and the cache\<close>




subsection \<open>C5: what the cache holds\<close>




subsection \<open>C6: failed retrievals\<close>



subsection \<open>C7: apply-indent\<close>




subsection \<open>C8: strip-indent on blank content\<close>

text \<open>
  Claim C8, at the input where the code departs from it. \<^verbatim>\<open>blank.md\<close> is an empty file, so
  its content is the one line \<^verbatim>\<open>""\<close>; the directive \<^verbatim>\<open>{!< blank.md !}\<close> requests strip-indent,
  \<^verbatim>\<open>min\<close> is applied to an empty sequence, and the run ends in its \<^verbatim>\<open>ValueError\<close>.
\<close>

theorem strip_indent_blank_content_raises:
  "map_option fst (run example_env default_config 2 [''{!< blank.md !}''] state0)
     = Some (Inl MinEmptySequence)"
  by code_simp

subsection \<open>C9: caches after a failed run\<close>

text \<open>
  Claim C9. When \<^verbatim>\<open>run\<close> ends in an exception, the state it leaves is the state in which
  line processing raised: no cache is cleaned, whatever the two clean flags are, and every
  entry the caches had when the run started is still there.
\<close>

theorem failed_run_keeps_caches:
  assumes "run env cfg fuel lines st = Some (Inl e, st')"
  shows "mdx_include_get_processed_lines env cfg fuel lines [] (st\<lparr>cyclic := Cyclic_new env\<rparr>)
           = Some (Inl e, st') \<and>
         mdx_include_content_cache_local st \<subseteq>\<^sub>m mdx_include_content_cache_local st' \<and>
         mdx_include_content_cache_remote st \<subseteq>\<^sub>m mdx_include_content_cache_remote st'"
proof -
  have a: "mdx_include_get_processed_lines env cfg fuel lines [] (st\<lparr>cyclic := Cyclic_new env\<rparr>)
           = Some (Inl e, st')"
    using assms
    by (auto simp: run_def Let_def split: option.splits sum.splits prod.splits if_splits)
  from mdx_caches_grow[OF a] show ?thesis using a by (simp add: caches_grow_def)
qed

theorem failed_run_keeps_caches_witness:
  "content_cache_clean_local (default_config\<lparr>content_cache_clean_local := True\<rparr>) \<and>
   map_option fst (run example_env (default_config\<lparr>content_cache_clean_local := True\<rparr>) 3
       [''{! cyc1.md !}''] (state0\<lparr>mdx_include_content_cache_local := [''old.md'' \<mapsto> [''O'']]\<rparr>))
     = Some (Inl (CircularInclusion ''cyc2.md'' ''cyc1.md'' [''cyc2.md'', ''cyc1.md'', []])) \<and>
   map (mdx_include_content_cache_local
          (snd (the (run example_env (default_config\<lparr>content_cache_clean_local := True\<rparr>) 3
             [''{! cyc1.md !}'']
             (state0\<lparr>mdx_include_content_cache_local := [''old.md'' \<mapsto> [''O'']]\<rparr>)))))
       [''old.md'', ''cyc1.md'', ''cyc2.md'']
     = [Some [''O''], Some [''{! cyc2.md !}''], Some [''{! cyc1.md !}'']] \<and>
   [''old.md'' \<mapsto> [''O'']] \<subseteq>\<^sub>m
     mdx_include_content_cache_local
          (snd (the (run example_env (default_config\<lparr>content_cache_clean_local := True\<rparr>) 3
             [''{! cyc1.md !}'']
             (state0\<lparr>mdx_include_content_cache_local := [''old.md'' \<mapsto> [''O'']]\<rparr>))))"
proof -
  let ?cfg = "default_config\<lparr>content_cache_clean_local := True\<rparr>"
  let ?st = "state0\<lparr>mdx_include_content_cache_local := [''old.md'' \<mapsto> [''O'']]\<rparr>"
  let ?run = "run example_env ?cfg 3 [''{! cyc1.md !}''] ?st"
  let ?e = "CircularInclusion ''cyc2.md'' ''cyc1.md'' [''cyc2.md'', ''cyc1.md'', []]"
  have v: "map_option fst ?run = Some (Inl ?e)" by code_simp
  have c: "map (mdx_include_content_cache_local (snd (the ?run)))
       [''old.md'', ''cyc1.md'', ''cyc2.md'']
     = [Some [''O''], Some [''{! cyc2.md !}''], Some [''{! cyc1.md !}'']]"
    by code_simp
  have r: "?run = Some (Inl ?e, snd (the ?run))" using some_result[OF v] .
  show ?thesis
    using v c failed_run_keeps_caches[OF r] by simp
qed

subsection \<open>C10: home-directory expansion\<close>



end
